theory Spec2Isabelle
  imports Complex_Main
begin

section \<open>The JavaScript \<open>Map\<close> the program is built on\<close>

text \<open>
  \<open>LruCache\<close>, \<open>RateLimiterStore\<close> and \<open>InMemoryLinkRepository\<close> each keep a
  \<open>Map\<close>. A JavaScript \<open>Map\<close> iterates in insertion order, and \<open>LruCache\<close> uses
  that order as its recency queue, so a \<open>Map\<close> is an association list in insertion
  order (oldest entry first) with at most one pair per key.
  \<^item> \<open>has\<close> and \<open>get\<close> look a key up (\<open>get\<close> of a missing key is \<open>undefined\<close>: \<open>None\<close>);
  \<^item> \<open>set\<close> of a key that is there replaces the value and keeps the position,
    \<open>set\<close> of a new key appends;
  \<^item> \<open>delete\<close> removes the key;
  \<^item> \<open>keys().next().value\<close> is the first key, \<open>undefined\<close> for an empty map.
\<close>

definition Map_has :: "('k \<times> 'v) list \<Rightarrow> 'k \<Rightarrow> bool" where
  "Map_has m k = (k \<in> set (map fst m))"

definition Map_get :: "('k \<times> 'v) list \<Rightarrow> 'k \<Rightarrow> 'v option" where
  "Map_get m k = map_of m k"

fun Map_set :: "('k \<times> 'v) list \<Rightarrow> 'k \<Rightarrow> 'v \<Rightarrow> ('k \<times> 'v) list" where
  "Map_set [] k v = [(k, v)]"
| "Map_set ((k', v') # m) k v =
     (if k' = k then (k, v) # m else (k', v') # Map_set m k v)"

definition Map_delete :: "('k \<times> 'v) list \<Rightarrow> 'k \<Rightarrow> ('k \<times> 'v) list" where
  "Map_delete m k = filter (\<lambda>p. fst p \<noteq> k) m"

definition Map_first_key :: "('k \<times> 'v) list \<Rightarrow> 'k option" where
  "Map_first_key m = (case m of [] \<Rightarrow> None | p # _ \<Rightarrow> Some (fst p))"

section \<open>\<open>LruCache\<close> (src/utils/lru-cache.ts)\<close>

text \<open>
  The class has the fields \<open>entries\<close> (a \<open>Map<string, T>\<close>) and \<open>maxSize\<close> (a
  number, here an integer: nothing stops a caller from passing zero or a negative one).
  The type parameter \<open>T\<close> is unconstrained, so a stored value may itself be
  \<open>undefined\<close>: a value of \<open>T\<close> is a \<open>'v option\<close>, \<open>None\<close> being \<open>undefined\<close>.
  Every method returns its result together with the cache it leaves behind.
\<close>

record 'v LruCache =
  entries :: "(string \<times> 'v option) list"
  maxSize :: int

definition DEFAULT_MAX_SIZE :: int where
  "DEFAULT_MAX_SIZE = 50"

definition LruCache_new :: "int \<Rightarrow> 'v LruCache" where
  "LruCache_new n = \<lparr>entries = [], maxSize = n\<rparr>"

text \<open>
  \<open>get\<close> tests \<open>value === undefined\<close>: a missing key and a key whose stored value is
  \<open>undefined\<close> take the same early return, before the re-insertion.
\<close>

definition LruCache_get :: "'v LruCache \<Rightarrow> string \<Rightarrow> 'v option \<times> 'v LruCache" where
  "LruCache_get c key =
     (case Map_get (entries c) key of
        None \<Rightarrow> (None, c)
      | Some None \<Rightarrow> (None, c)
      | Some (Some v) \<Rightarrow>
          (Some v, c\<lparr>entries := Map_set (Map_delete (entries c) key) key (Some v)\<rparr>))"

definition LruCache_set :: "'v LruCache \<Rightarrow> string \<Rightarrow> 'v option \<Rightarrow> 'v LruCache" where
  "LruCache_set c key val =
     (let e1 = (if Map_has (entries c) key then Map_delete (entries c) key else entries c);
          e2 = Map_set e1 key val
      in if int (length e2) > maxSize c
         then (case Map_first_key e2 of
                 None \<Rightarrow> c\<lparr>entries := e2\<rparr>
               | Some oldestKey \<Rightarrow> c\<lparr>entries := Map_delete e2 oldestKey\<rparr>)
         else c\<lparr>entries := e2\<rparr>)"

definition LruCache_has :: "'v LruCache \<Rightarrow> string \<Rightarrow> bool \<times> 'v LruCache" where
  "LruCache_has c key = (Map_has (entries c) key, c)"

definition LruCache_size :: "'v LruCache \<Rightarrow> nat" where
  "LruCache_size c = length (entries c)"

definition LruCache_clear :: "'v LruCache \<Rightarrow> 'v LruCache" where
  "LruCache_clear c = c\<lparr>entries := []\<rparr>"

text \<open>A call of one of the four methods, and a sequence of calls on one cache.\<close>

datatype 'v cache_op = Get string | Set string "'v option" | Has string | Clear

fun apply_cache_op :: "'v LruCache \<Rightarrow> 'v cache_op \<Rightarrow> 'v LruCache" where
  "apply_cache_op c (Get k) = snd (LruCache_get c k)"
| "apply_cache_op c (Set k v) = LruCache_set c k v"
| "apply_cache_op c (Has k) = snd (LruCache_has c k)"
| "apply_cache_op c Clear = LruCache_clear c"

definition run_cache :: "'v LruCache \<Rightarrow> 'v cache_op list \<Rightarrow> 'v LruCache" where
  "run_cache c ops = foldl apply_cache_op c ops"

definition cache_keys :: "'v LruCache \<Rightarrow> string list" where
  "cache_keys c = map fst (entries c)"

text \<open>
  The map right after \<open>this.entries.set(key, value)\<close> in \<open>set\<close> (and after the
  re-insertion in \<open>get\<close>): the key removed from wherever it was and appended as the
  newest pair.
\<close>

definition reinserted :: "(string \<times> 'v option) list \<Rightarrow> string \<Rightarrow> 'v option \<Rightarrow> (string \<times> 'v option) list" where
  "reinserted m k v = Map_delete m k @ [(k, v)]"

text \<open>
  The class invariant: the keys are pairwise different (it is a \<open>Map\<close>) and there are
  at most \<open>maxSize\<close> of them.
\<close>

definition cache_inv :: "'v LruCache \<Rightarrow> bool" where
  "cache_inv c = (distinct (map fst (entries c)) \<and> int (length (entries c)) \<le> maxSize c)"

subsection \<open>Recency, read off the history of calls\<close>

text \<open>
  The key a call touches: \<open>get\<close> and \<open>set\<close> name one, \<open>has\<close> and \<open>clear\<close> touch
  none. \<open>last_touch ops k\<close> is the position (counted from 1) of the latest call in the
  history \<open>ops\<close> that touches \<open>k\<close>, and 0 when no call does. It is defined from the
  calls alone, not from the cache, so that the cache's order can be compared with it.
\<close>

fun touched :: "'v cache_op \<Rightarrow> string option" where
  "touched (Get k) = Some k"
| "touched (Set k v) = Some k"
| "touched (Has k) = None"
| "touched Clear = None"

fun last_touch_rev :: "'v cache_op list \<Rightarrow> string \<Rightarrow> nat" where
  "last_touch_rev [] k = 0"
| "last_touch_rev (x # older) k =
     (if touched x = Some k then Suc (length older) else last_touch_rev older k)"

definition last_touch :: "'v cache_op list \<Rightarrow> string \<Rightarrow> nat" where
  "last_touch ops k = last_touch_rev (rev ops) k"

text \<open>A call that stores \<open>undefined\<close> as the value, and a history with no such call.\<close>

fun stores_undefined :: "'v cache_op \<Rightarrow> bool" where
  "stores_undefined (Set k None) = True"
| "stores_undefined _ = False"

definition defined_values :: "'v cache_op list \<Rightarrow> bool" where
  "defined_values ops = (filter stores_undefined ops = [])"

fun is_Has :: "'v cache_op \<Rightarrow> bool" where
  "is_Has (Has k) = True"
| "is_Has _ = False"

text \<open>
  What is proved of the cache after a history \<open>ops\<close>: its keys stand in the order of
  their last touch, oldest first, and no stored value is \<open>undefined\<close>.
\<close>

definition recency_sorted :: "'v cache_op list \<Rightarrow> string list \<Rightarrow> bool" where
  "recency_sorted ops ks = sorted_wrt (\<lambda>a b. last_touch ops a < last_touch ops b) ks"

definition all_defined :: "(string \<times> 'v option) list \<Rightarrow> bool" where
  "all_defined m = (None \<notin> set (map snd m))"

definition lru_inv :: "'v cache_op list \<Rightarrow> 'v LruCache \<Rightarrow> bool" where
  "lru_inv ops c = (recency_sorted ops (cache_keys c) \<and> all_defined (entries c))"

text \<open>The \<open>set\<close> call that stores a pair.\<close>

definition set_op :: "string \<times> 'v option \<Rightarrow> 'v cache_op" where
  "set_op p = Set (fst p) (snd p)"

section \<open>\<open>RateLimiterStore\<close> and the middleware (src/middleware/rate-limiter.ts)\<close>

text \<open>
  Times are milliseconds as \<open>Date.now()\<close> returns them, counts and thresholds are
  integers. A method that reads the clock takes the reading as an argument. The
  \<open>entries\<close> map of the store holds objects, which are never \<open>undefined\<close>.
\<close>

record RateLimitEntry =
  count :: int
  resetAt :: int

record RateLimiterOptions =
  windowMs :: int
  maxRequests :: int
  message :: string
  code :: string

record RateLimitResult =
  isLimited :: bool
  remaining :: int
  result_resetAt :: int

record RateLimiterStore =
  store_entries :: "(string \<times> RateLimitEntry) list"
  store_windowMs :: int
  store_maxRequests :: int

definition RateLimiterStore_new :: "int \<Rightarrow> int \<Rightarrow> RateLimiterStore" where
  "RateLimiterStore_new w m = \<lparr>store_entries = [], store_windowMs = w, store_maxRequests = m\<rparr>"

text \<open>The first branch of \<open>check\<close>: a fresh window for the key.\<close>

definition fresh_window :: "RateLimiterStore \<Rightarrow> int \<Rightarrow> string \<Rightarrow> RateLimitResult \<times> RateLimiterStore" where
  "fresh_window st now key =
     (let r = now + store_windowMs st
      in (\<lparr>isLimited = False, remaining = store_maxRequests st - 1, result_resetAt = r\<rparr>,
          st\<lparr>store_entries := Map_set (store_entries st) key \<lparr>count = 1, resetAt = r\<rparr>\<rparr>))"

text \<open>
  \<open>entry.count += 1\<close> changes the object the map holds, in place: the pair keeps its
  position.
\<close>

definition check :: "RateLimiterStore \<Rightarrow> int \<Rightarrow> string \<Rightarrow> RateLimitResult \<times> RateLimiterStore" where
  "check st now key =
     (case Map_get (store_entries st) key of
        None \<Rightarrow> fresh_window st now key
      | Some entry \<Rightarrow>
          if now \<ge> resetAt entry then fresh_window st now key
          else
            (let entry' = entry\<lparr>count := count entry + 1\<rparr>;
                 st' = st\<lparr>store_entries := Map_set (store_entries st) key entry'\<rparr>
             in if count entry' > store_maxRequests st
                then (\<lparr>isLimited = True, remaining = 0, result_resetAt = resetAt entry'\<rparr>, st')
                else (\<lparr>isLimited = False, remaining = store_maxRequests st - count entry',
                       result_resetAt = resetAt entry'\<rparr>, st')))"

text \<open>One run of the cleanup timer's callback, at the time \<open>now\<close>.\<close>

definition cleanup :: "RateLimiterStore \<Rightarrow> int \<Rightarrow> RateLimiterStore" where
  "cleanup st now = st\<lparr>store_entries := filter (\<lambda>p. \<not> now \<ge> resetAt (snd p)) (store_entries st)\<rparr>"

text \<open>
  A sequence of \<open>check\<close> calls for one key, each at its own clock reading: the results
  in order, and the store left behind.
\<close>

fun checks :: "RateLimiterStore \<Rightarrow> string \<Rightarrow> int list \<Rightarrow> RateLimitResult list \<times> RateLimiterStore" where
  "checks st key [] = ([], st)"
| "checks st key (now # later) =
     (let (r, st') = check st now key; (rs, st'') = checks st' key later
      in (r # rs, st''))"

text \<open>
  \<open>Math.ceil(x / 1000)\<close> for an integer \<open>x\<close>; \<open>div\<close> on \<open>int\<close> rounds down, so the
  ceiling is the negated quotient of the negation.
\<close>

definition ceil_div_1000 :: "int \<Rightarrow> int" where
  "ceil_div_1000 x = - ((- x) div 1000)"

text \<open>
  The response, with what the middleware and the error handler write to it: headers
  (all numbers here), the status code and the JSON body, which in this program is
  always the error envelope \<open>{success, error: {message, code}}\<close>.
\<close>

datatype json_body = ErrorEnvelope (success: bool) (error_message: string) (error_code: string)

record Response =
  headers :: "(string \<times> int) list"
  statusCode :: int
  body :: "json_body option"

definition setHeader :: "Response \<Rightarrow> string \<Rightarrow> int \<Rightarrow> Response" where
  "setHeader res name v = res\<lparr>headers := Map_set (headers res) name v\<rparr>"

definition status :: "Response \<Rightarrow> int \<Rightarrow> Response" where
  "status res c = res\<lparr>statusCode := c\<rparr>"

definition json :: "Response \<Rightarrow> json_body \<Rightarrow> Response" where
  "json res b = res\<lparr>body := Some b\<rparr>"

text \<open>
  \<open>createRateLimiter\<close> builds the store from the options; the middleware it returns
  takes the request's \<open>ip\<close> (\<open>None\<close> when \<open>req.ip\<close> is \<open>undefined\<close>), the response, and
  the two clock readings it can make: \<open>now\<close> inside \<open>store.check\<close>, and \<open>now'\<close> at the
  later \<open>Date.now()\<close> of the denial branch. It returns the response, the store and
  whether \<open>next()\<close> was called. \<open>client_key\<close> is \<open>req.ip ?? 'unknown'\<close>.
\<close>

definition client_key :: "string option \<Rightarrow> string" where
  "client_key ip = (case ip of None \<Rightarrow> ''unknown'' | Some a \<Rightarrow> a)"

definition createRateLimiter :: "RateLimiterOptions \<Rightarrow> RateLimiterStore" where
  "createRateLimiter options = RateLimiterStore_new (windowMs options) (maxRequests options)"

definition rateLimiterMiddleware ::
  "RateLimiterOptions \<Rightarrow> RateLimiterStore \<Rightarrow> string option \<Rightarrow> Response \<Rightarrow> int \<Rightarrow> int
     \<Rightarrow> Response \<times> RateLimiterStore \<times> bool" where
  "rateLimiterMiddleware options store ip res now now' =
     (let key = client_key ip;
          (result, store') = check store now key;
          res1 = setHeader res ''X-RateLimit-Limit'' (maxRequests options);
          res2 = setHeader res1 ''X-RateLimit-Remaining'' (remaining result);
          res3 = setHeader res2 ''X-RateLimit-Reset'' (ceil_div_1000 (result_resetAt result))
      in if isLimited result
         then (let retryAfterSec = ceil_div_1000 (result_resetAt result - now');
                   res4 = setHeader res3 ''Retry-After'' retryAfterSec
               in (json (status res4 429) (ErrorEnvelope False (message options) (code options)),
                   store', False))
         else (res3, store', True))"

definition new_Response :: Response where
  "new_Response = \<lparr>headers = [], statusCode = 200, body = None\<rparr>"

text \<open>
  A limiter of one request per second, and its store after one admitted request from
  \<open>10.0.0.1\<close> at time 0.
\<close>

definition example_options :: RateLimiterOptions where
  "example_options = \<lparr>windowMs = 1000, maxRequests = 1, message = ''Too many requests'',
                       code = ''RATE_LIMIT_EXCEEDED''\<rparr>"

definition store_after_first_request :: RateLimiterStore where
  "store_after_first_request =
     fst (snd (rateLimiterMiddleware example_options (createRateLimiter example_options)
                 (Some ''10.0.0.1'') new_Response 0 0))"

section \<open>Errors and the error handler (src/middleware/error-handler.ts)\<close>

text \<open>A thrown value: an \<open>AppError\<close> with its fields, or any other \<open>Error\<close>.\<close>

datatype error =
  AppError (err_message: string) (err_statusCode: int) (err_code: string)
| OtherError string

fun errorHandler :: "error \<Rightarrow> Response \<Rightarrow> Response" where
  "errorHandler (AppError m sc c) res = json (status res sc) (ErrorEnvelope False m c)"
| "errorHandler (OtherError m) res =
     json (status res 500) (ErrorEnvelope False ''Internal server error'' ''INTERNAL_ERROR'')"

section \<open>\<open>InMemoryLinkRepository\<close> (src/repositories/link.repository.ts)\<close>

record Link =
  linkId :: string
  originalUrl :: string
  shortCode :: string
  createdAt :: int

text \<open>
  The repository is a \<open>Map\<close> from \<open>id\<close> to \<open>Link\<close>. The model also keeps \<open>calls\<close>, the
  list of the calls made on the repository so far: the program has no such field, it
  is there so that "the store was not contacted" can be stated.
\<close>

datatype repo_call = FindByShortCode string | Save Link

record InMemoryLinkRepository =
  links :: "(string \<times> Link) list"
  calls :: "repo_call list"

definition InMemoryLinkRepository_new :: InMemoryLinkRepository where
  "InMemoryLinkRepository_new = \<lparr>links = [], calls = []\<rparr>"

definition findByShortCode :: "InMemoryLinkRepository \<Rightarrow> string \<Rightarrow> Link option \<times> InMemoryLinkRepository" where
  "findByShortCode r sc =
     (find (\<lambda>l. shortCode l = sc) (map snd (links r)), r\<lparr>calls := calls r @ [FindByShortCode sc]\<rparr>)"

definition save :: "InMemoryLinkRepository \<Rightarrow> Link \<Rightarrow> Link \<times> InMemoryLinkRepository" where
  "save r l = (l, r\<lparr>links := Map_set (links r) (linkId l) l, calls := calls r @ [Save l]\<rparr>)"

section \<open>\<open>LinkService\<close> (src/services/link.service.ts)\<close>

text \<open>
  Two things the service calls are not code of the repository: the \<open>URL\<close> constructor
  of the platform, which throws on a string that does not parse, and the random bytes
  behind \<open>generateShortId\<close>. Both are parameters: \<open>url_parses\<close> says which strings the
  constructor accepts, \<open>random_id n\<close> is the identifier the \<open>n\<close>-th call of
  \<open>generateShortId\<close> returns. The state counts those calls in \<open>idsGenerated\<close>.
  \<open>new Date()\<close> is the argument \<open>now\<close>.
\<close>

record platform =
  url_parses :: "string \<Rightarrow> bool"
  random_id :: "nat \<Rightarrow> string"

record LinkService =
  shortCodeCache :: "Link LruCache"
  urlCache :: "Link LruCache"
  linkRepository :: InMemoryLinkRepository
  idsGenerated :: nat

definition CACHE_MAX_SIZE :: int where
  "CACHE_MAX_SIZE = 50"

definition LinkService_new :: "InMemoryLinkRepository \<Rightarrow> LinkService" where
  "LinkService_new r =
     \<lparr>shortCodeCache = LruCache_new CACHE_MAX_SIZE, urlCache = LruCache_new CACHE_MAX_SIZE,
      linkRepository = r, idsGenerated = 0\<rparr>"

definition validateUrl :: "platform \<Rightarrow> string \<Rightarrow> error + unit" where
  "validateUrl pf url =
     (if url_parses pf url then Inr () else Inl (AppError ''Invalid URL provided'' 400 ''INVALID_URL''))"

definition generateShortId :: "platform \<Rightarrow> LinkService \<Rightarrow> string \<times> LinkService" where
  "generateShortId pf s = (random_id pf (idsGenerated s), s\<lparr>idsGenerated := Suc (idsGenerated s)\<rparr>)"

definition shortenUrl :: "platform \<Rightarrow> LinkService \<Rightarrow> string \<Rightarrow> int \<Rightarrow> (error + Link) \<times> LinkService" where
  "shortenUrl pf s url now =
     (case validateUrl pf url of
        Inl e \<Rightarrow> (Inl e, s)
      | Inr _ \<Rightarrow>
          (let (cached, uc) = LruCache_get (urlCache s) url;
               s1 = s\<lparr>urlCache := uc\<rparr>
           in case cached of
                Some l \<Rightarrow> (Inr l, s1)
              | None \<Rightarrow>
                  (let (i, s2) = generateShortId pf s1;
                       (sc, s3) = generateShortId pf s2;
                       link = \<lparr>linkId = i, originalUrl = url, shortCode = sc, createdAt = now\<rparr>;
                       (saved, r) = save (linkRepository s3) link;
                       s4 = s3\<lparr>linkRepository := r\<rparr>;
                       s5 = s4\<lparr>shortCodeCache :=
                                 LruCache_set (shortCodeCache s4) (shortCode saved) (Some saved)\<rparr>;
                       s6 = s5\<lparr>urlCache :=
                                 LruCache_set (urlCache s5) (originalUrl saved) (Some saved)\<rparr>
                   in (Inr saved, s6))))"

definition resolveShortCode :: "LinkService \<Rightarrow> string \<Rightarrow> (error + Link) \<times> LinkService" where
  "resolveShortCode s sc =
     (let (cached, scc) = LruCache_get (shortCodeCache s) sc;
          s1 = s\<lparr>shortCodeCache := scc\<rparr>
      in case cached of
           Some l \<Rightarrow> (Inr l, s1)
         | None \<Rightarrow>
             (let (found, r) = findByShortCode (linkRepository s1) sc;
                  s2 = s1\<lparr>linkRepository := r\<rparr>
              in case found of
                   None \<Rightarrow> (Inl (AppError ''Short link not found'' 404 ''LINK_NOT_FOUND''), s2)
                 | Some link \<Rightarrow>
                     (let s3 = s2\<lparr>shortCodeCache := LruCache_set (shortCodeCache s2) sc (Some link)\<rparr>;
                          s4 = s3\<lparr>urlCache :=
                                    LruCache_set (urlCache s3) (originalUrl link) (Some link)\<rparr>
                      in (Inr link, s4))))"

text \<open>The \<open>Link\<close> that \<open>shortenUrl\<close> builds on a cache miss.\<close>

definition new_link :: "platform \<Rightarrow> LinkService \<Rightarrow> string \<Rightarrow> int \<Rightarrow> Link" where
  "new_link pf s url now =
     \<lparr>linkId = random_id pf (idsGenerated s), originalUrl = url,
      shortCode = random_id pf (Suc (idsGenerated s)), createdAt = now\<rparr>"

text \<open>A call of the service, and a sequence of calls from a new service.\<close>

datatype service_call = ShortenUrl string int | ResolveShortCode string

fun apply_service_call :: "platform \<Rightarrow> LinkService \<Rightarrow> service_call \<Rightarrow> LinkService" where
  "apply_service_call pf s (ShortenUrl url now) = snd (shortenUrl pf s url now)"
| "apply_service_call pf s (ResolveShortCode sc) = snd (resolveShortCode s sc)"

definition run_service :: "platform \<Rightarrow> LinkService \<Rightarrow> service_call list \<Rightarrow> LinkService" where
  "run_service pf s cs = foldl (apply_service_call pf) s cs"

text \<open>What a cache holds under a key, as a lookup without the reordering of \<open>get\<close>.\<close>

definition cached_at :: "'v LruCache \<Rightarrow> string \<Rightarrow> 'v option" where
  "cached_at c k = (case Map_get (entries c) k of Some (Some v) \<Rightarrow> Some v | _ \<Rightarrow> None)"

text \<open>
  What every state of the service satisfies: the keys of each cache are pairwise
  different, and each cache has room for at least one entry (\<open>CACHE_MAX_SIZE\<close> is 50).
\<close>

definition service_inv :: "LinkService \<Rightarrow> bool" where
  "service_inv s =
     (distinct (cache_keys (shortCodeCache s)) \<and> distinct (cache_keys (urlCache s))
      \<and> 1 \<le> maxSize (shortCodeCache s) \<and> 1 \<le> maxSize (urlCache s))"

text \<open>
  A platform for the examples: it accepts the strings that start with \<open>https://\<close> and
  hands out the identifiers \<open>id\<close>, \<open>idx\<close>, \<open>idxx\<close>, ... The link is the one a new
  service creates for \<open>https://example.com\<close> at time 1000.
\<close>

definition example_platform :: platform where
  "example_platform =
     \<lparr>url_parses = (\<lambda>u. take 8 u = ''https://''),
      random_id = (\<lambda>n. ''id'' @ replicate n (CHR ''x''))\<rparr>"

definition example_link :: Link where
  "example_link =
     \<lparr>linkId = ''id'', originalUrl = ''https://example.com'', shortCode = ''idx'', createdAt = 1000\<rparr>"

definition example_repository :: InMemoryLinkRepository where
  "example_repository = \<lparr>links = [(''id'', example_link)], calls = []\<rparr>"

section \<open>Facts about the map operations and the cache\<close>

lemma Map_set_absent: "\<not> Map_has m k \<Longrightarrow> Map_set m k v = m @ [(k, v)]"
  by (induction m) (auto simp: Map_has_def)

lemma Map_has_delete: "\<not> Map_has (Map_delete m k) k"
  by (auto simp: Map_has_def Map_delete_def)

lemma Map_delete_absent: "\<not> Map_has m k \<Longrightarrow> Map_delete m k = m"
  by (induction m) (auto simp: Map_has_def Map_delete_def)

lemma keys_Map_delete: "map fst (Map_delete m k) = removeAll k (map fst m)"
  by (induction m) (auto simp: Map_delete_def)

lemma distinct_Map_delete: "distinct (map fst m) \<Longrightarrow> distinct (map fst (Map_delete m k))"
  by (simp add: keys_Map_delete distinct_removeAll)

lemma length_Map_delete_le: "length (Map_delete m k) \<le> length m"
  by (simp add: Map_delete_def)

lemma Map_delete_first:
  "distinct (map fst (p # m)) \<Longrightarrow> Map_delete (p # m) (fst p) = m"
proof -
  assume "distinct (map fst (p # m))"
  then have "\<not> Map_has m (fst p)"
    by (simp add: Map_has_def)
  then have "Map_delete m (fst p) = m"
    by (rule Map_delete_absent)
  then show ?thesis
    by (simp add: Map_delete_def)
qed

lemma LruCache_set_entries:
  assumes "distinct (map fst (entries c))"
  shows "entries (LruCache_set c k v) =
           (if int (length (reinserted (entries c) k v)) > maxSize c
            then tl (reinserted (entries c) k v) else reinserted (entries c) k v)"
proof -
  let ?e1 = "if Map_has (entries c) k then Map_delete (entries c) k else entries c"
  have e1: "?e1 = Map_delete (entries c) k"
    by (simp add: Map_delete_absent)
  have e2: "Map_set ?e1 k v = reinserted (entries c) k v"
    unfolding e1 reinserted_def by (rule Map_set_absent) (rule Map_has_delete)
  have d: "distinct (map fst (reinserted (entries c) k v))"
    using assms by (simp add: reinserted_def keys_Map_delete distinct_removeAll)
  have drop: "Map_delete (reinserted (entries c) k v) (fst (hd (reinserted (entries c) k v)))
                = tl (reinserted (entries c) k v)"
  proof (cases "reinserted (entries c) k v")
    case Nil
    then show ?thesis by (simp add: reinserted_def)
  next
    case (Cons p m)
    with d show ?thesis using Map_delete_first [of p m] by simp
  qed
  show ?thesis
    unfolding LruCache_set_def Let_def e2
    using drop by (cases "reinserted (entries c) k v") (simp_all add: Map_first_key_def)
qed

lemma LruCache_set_maxSize: "maxSize (LruCache_set c k v) = maxSize c"
  by (simp add: LruCache_set_def Let_def Map_first_key_def split: list.splits option.splits)

lemma LruCache_get_maxSize: "maxSize (snd (LruCache_get c k)) = maxSize c"
  by (simp add: LruCache_get_def split: option.splits)

lemma LruCache_get_entries:
  "entries (snd (LruCache_get c k)) =
     (case Map_get (entries c) k of
        Some (Some v) \<Rightarrow> reinserted (entries c) k (Some v)
      | _ \<Rightarrow> entries c)"
  by (simp add: LruCache_get_def reinserted_def Map_set_absent Map_has_delete split: option.splits)

lemma length_Map_delete_present: "Map_has m k \<Longrightarrow> length (Map_delete m k) < length m"
proof -
  assume "Map_has m k"
  then obtain p where "p \<in> set m" and "\<not> fst p \<noteq> k"
    by (auto simp: Map_has_def)
  then show ?thesis
    unfolding Map_delete_def by (rule length_filter_less)
qed

lemma Map_get_Some_has: "Map_get m k = Some v \<Longrightarrow> Map_has m k"
  by (auto simp: Map_get_def Map_has_def dest: map_of_SomeD intro: rev_image_eqI)

lemma distinct_reinserted: "distinct (map fst m) \<Longrightarrow> distinct (map fst (reinserted m k v))"
  by (simp add: reinserted_def keys_Map_delete distinct_removeAll)

lemma length_reinserted_le: "length (reinserted m k v) \<le> Suc (length m)"
  by (simp add: reinserted_def length_Map_delete_le)

lemma length_reinserted_present: "Map_has m k \<Longrightarrow> length (reinserted m k v) \<le> length m"
  using length_Map_delete_present [of m k] by (simp add: reinserted_def)

lemma distinct_keys_set:
  "distinct (map fst (entries c)) \<Longrightarrow> distinct (map fst (entries (LruCache_set c k v)))"
  by (simp add: LruCache_set_entries distinct_reinserted map_tl distinct_tl)

lemma distinct_keys_get:
  "distinct (map fst (entries c)) \<Longrightarrow> distinct (map fst (entries (snd (LruCache_get c k))))"
  by (simp add: LruCache_get_entries distinct_reinserted split: option.splits)

lemma size_set:
  assumes "distinct (map fst (entries c))" and "int (length (entries c)) \<le> maxSize c"
  shows "int (length (entries (LruCache_set c k v))) \<le> maxSize c"
  using assms length_reinserted_le [of "entries c" k v]
  by (simp add: LruCache_set_entries)

lemma size_get:
  assumes "int (length (entries c)) \<le> maxSize c"
  shows "int (length (entries (snd (LruCache_get c k)))) \<le> maxSize c"
proof (cases "Map_get (entries c) k")
  case None
  with assms show ?thesis by (simp add: LruCache_get_entries)
next
  case (Some x)
  then have "Map_has (entries c) k" by (rule Map_get_Some_has)
  then have "length (reinserted (entries c) k x) \<le> length (entries c)"
    by (rule length_reinserted_present)
  with assms Some show ?thesis
    by (cases x) (simp_all add: LruCache_get_entries)
qed

lemma cache_inv_set: "cache_inv c \<Longrightarrow> cache_inv (LruCache_set c k v)"
  by (simp add: cache_inv_def distinct_keys_set size_set LruCache_set_maxSize)

lemma cache_inv_get: "cache_inv c \<Longrightarrow> cache_inv (snd (LruCache_get c k))"
  by (simp add: cache_inv_def distinct_keys_get size_get LruCache_get_maxSize)

lemma cache_inv_clear: "cache_inv c \<Longrightarrow> cache_inv (LruCache_clear c)"
  by (auto simp: cache_inv_def LruCache_clear_def)

lemma cache_inv_op: "cache_inv c \<Longrightarrow> cache_inv (apply_cache_op c x)"
  by (cases x) (simp_all add: cache_inv_set cache_inv_get cache_inv_clear LruCache_has_def)

lemma cache_inv_run: "cache_inv c \<Longrightarrow> cache_inv (run_cache c ops)"
  unfolding run_cache_def by (induction ops arbitrary: c) (simp_all add: cache_inv_op)

lemma cache_inv_new: "0 \<le> n \<Longrightarrow> cache_inv (LruCache_new n)"
  by (simp add: cache_inv_def LruCache_new_def)

lemma maxSize_op: "maxSize (apply_cache_op c x) = maxSize c"
  by (cases x) (simp_all add: LruCache_set_maxSize LruCache_get_maxSize LruCache_has_def LruCache_clear_def)

lemma maxSize_run: "maxSize (run_cache c ops) = maxSize c"
  unfolding run_cache_def by (induction ops arbitrary: c) (simp_all add: maxSize_op)

lemma run_cache_snoc: "run_cache c (ops @ [x]) = apply_cache_op (run_cache c ops) x"
  by (simp add: run_cache_def)

section \<open>The size of the cache\<close>

text \<open>
  Claim C4. For a cache built with capacity \<open>N \<ge> 0\<close>, after any sequence of \<open>get\<close>,
  \<open>set\<close>, \<open>has\<close> and \<open>clear\<close> calls the size is at most \<open>N\<close>. A \<open>set\<close> whose
  insertion makes the map longer than \<open>N\<close> drops exactly the oldest pair before it
  returns, and the size is \<open>N\<close> again. With \<open>N = 0\<close> every \<open>set\<close> leaves the cache
  empty.
\<close>

theorem LruCache_size_never_exceeds_maxSize:
  assumes "0 \<le> N"
  shows "int (LruCache_size (run_cache (LruCache_new N) ops)) \<le> N
       \<and> (N < int (length (reinserted (entries (run_cache (LruCache_new N) ops)) k v)) \<longrightarrow>
            entries (LruCache_set (run_cache (LruCache_new N) ops) k v)
              = tl (reinserted (entries (run_cache (LruCache_new N) ops)) k v)
          \<and> int (LruCache_size (LruCache_set (run_cache (LruCache_new N) ops) k v)) = N)
       \<and> (N = 0 \<longrightarrow> entries (LruCache_set (run_cache (LruCache_new N) ops) k v) = [])"
proof -
  let ?c = "run_cache (LruCache_new N) ops :: 'a LruCache"
  have inv: "cache_inv ?c"
    using assms by (simp add: cache_inv_new cache_inv_run)
  have ms: "maxSize ?c = N"
    by (simp add: maxSize_run LruCache_new_def)
  from inv ms have bound: "int (length (entries ?c)) \<le> N" and dist: "distinct (map fst (entries ?c))"
    by (simp_all add: cache_inv_def)
  have a: "int (LruCache_size ?c) \<le> N"
    using bound by (simp add: LruCache_size_def)
  have le: "length (reinserted (entries ?c) k v) \<le> Suc (length (entries ?c))"
    by (rule length_reinserted_le)
  have b: "N < int (length (reinserted (entries ?c) k v)) \<longrightarrow>
            entries (LruCache_set ?c k v) = tl (reinserted (entries ?c) k v)
          \<and> int (LruCache_size (LruCache_set ?c k v)) = N"
    using bound le by (auto simp: LruCache_set_entries [OF dist] ms LruCache_size_def)
  have c: "N = 0 \<longrightarrow> entries (LruCache_set ?c k v) = []"
  proof
    assume "N = 0"
    with bound have "entries ?c = []" by simp
    then have "reinserted (entries ?c) k v = [(k, v)]"
      by (simp add: reinserted_def Map_delete_def)
    moreover note LruCache_set_entries [OF dist, of k v] ms \<open>N = 0\<close>
    ultimately show "entries (LruCache_set ?c k v) = []"
      by simp
  qed
  from a b c show ?thesis by blast
qed

theorem LruCache_size_never_exceeds_maxSize_witness:
  "(0::int) \<le> 0
   \<and> LruCache_size (run_cache (LruCache_new 0) [Set ''a'' (Some (1::nat)), Get ''a'', Has ''a'']) = 0
   \<and> entries (LruCache_set (run_cache (LruCache_new 0) [Set ''a'' (Some (1::nat)), Get ''a'', Has ''a'']) ''b'' (Some 2)) = []"
  using LruCache_size_never_exceeds_maxSize [of 0 "[Set ''a'' (Some (1::nat)), Get ''a'', Has ''a'']" "''b''" "Some 2"]
  by simp

section \<open>\<open>has\<close> does not touch the cache\<close>

lemma apply_Has: "is_Has x \<Longrightarrow> apply_cache_op c x = c"
  by (cases x) (simp_all add: LruCache_has_def)

lemma run_cache_without_Has: "run_cache c (filter (\<lambda>x. \<not> is_Has x) ops) = run_cache c ops"
  unfolding run_cache_def by (induction ops arbitrary: c) (simp_all add: apply_Has)

lemma run_cache_append: "run_cache c (xs @ ys) = run_cache (run_cache c xs) ys"
  by (simp add: run_cache_def)

lemma run_cache_replicate_Has: "run_cache c (replicate n (Has k)) = c"
  unfolding run_cache_def by (induction n) (simp_all add: LruCache_has_def)

text \<open>
  Claim C5. \<open>has\<close> leaves the whole cache as it was: contents, size and order. So a
  sequence of calls and the same sequence with its \<open>has\<close> calls removed end in the same
  cache, and a later \<open>set\<close> evicts the same entry. With capacity 1, \<open>set(a)\<close>, any
  number of \<open>has(a)\<close> and \<open>set(b)\<close> leave only \<open>b\<close>.
\<close>

theorem LruCache_has_changes_nothing:
  "snd (LruCache_has c k) = c
   \<and> run_cache c (filter (\<lambda>x. \<not> is_Has x) ops) = run_cache c ops
   \<and> entries (run_cache (LruCache_new 1) (Set a v # replicate n (Has a) @ [Set b w])) = [(b, w)]"
proof -
  have "snd (LruCache_has c k) = c"
    by (simp add: LruCache_has_def)
  moreover have "run_cache c (filter (\<lambda>x. \<not> is_Has x) ops) = run_cache c ops"
    by (rule run_cache_without_Has)
  moreover have "entries (run_cache (LruCache_new 1) (Set a v # replicate n (Has a) @ [Set b w])) = [(b, w)]"
  proof -
    have "run_cache (LruCache_new 1) (Set a v # replicate n (Has a) @ [Set b w])
            = run_cache (run_cache (run_cache (LruCache_new 1) [Set a v]) (replicate n (Has a))) [Set b w]"
      using run_cache_append [of "LruCache_new 1" "[Set a v]" "replicate n (Has a) @ [Set b w]"]
      by (simp add: run_cache_append)
    also have "\<dots> = run_cache (run_cache (LruCache_new 1) [Set a v]) [Set b w]"
      by (simp only: run_cache_replicate_Has)
    finally show "entries (run_cache (LruCache_new 1) (Set a v # replicate n (Has a) @ [Set b w])) = [(b, w)]"
      by (simp add: run_cache_def LruCache_new_def LruCache_set_def Map_has_def Map_delete_def
          Map_first_key_def)
  qed
  ultimately show ?thesis by blast
qed

theorem LruCache_has_changes_nothing_witness:
  "run_cache (LruCache_new 1) [Set ''A'' (Some (1::nat)), Set ''B'' (Some 2)]
       = run_cache (LruCache_new 1) [Set ''A'' (Some (1::nat)), Has ''A'', Has ''A'', Set ''B'' (Some 2)]
   \<and> entries (run_cache (LruCache_new 1)
        (Set ''A'' (Some (1::nat)) # replicate 3 (Has ''A'') @ [Set ''B'' (Some 2)])) = [(''B'', Some 2)]"
  using LruCache_has_changes_nothing
    [of "LruCache_new 1" "''A''" "[Set ''A'' (Some (1::nat)), Has ''A'', Has ''A'', Set ''B'' (Some 2)]"
        "''A''" "Some (1::nat)" 3 "''B''" "Some 2"]
  by simp

section \<open>The order of the cache is the order of last touch\<close>

lemma last_touch_snoc:
  "last_touch (ops @ [x]) k = (if touched x = Some k then Suc (length ops) else last_touch ops k)"
  by (simp add: last_touch_def)

lemma last_touch_rev_le: "last_touch_rev xs k \<le> length xs"
  by (induction xs) auto

lemma last_touch_le: "last_touch ops k \<le> length ops"
  using last_touch_rev_le [of "rev ops" k] by (simp add: last_touch_def)

lemma keys_reinserted: "map fst (reinserted m k v) = removeAll k (map fst m) @ [k]"
  by (simp add: reinserted_def keys_Map_delete)

lemma recency_sorted_unchanged:
  assumes "recency_sorted ops ks" and "\<forall>k \<in> set ks. touched x \<noteq> Some k"
  shows "recency_sorted (ops @ [x]) ks"
  using assms(1) unfolding recency_sorted_def
  by (rule sorted_wrt_mono_rel [rotated]) (use assms(2) in \<open>simp add: last_touch_snoc\<close>)

lemma recency_sorted_reinserted:
  assumes "recency_sorted ops (map fst m)" and "touched x = Some k"
  shows "recency_sorted (ops @ [x]) (map fst (reinserted m k v))"
proof -
  let ?rest = "removeAll k (map fst m)"
  have "recency_sorted ops ?rest"
    using assms(1) unfolding recency_sorted_def removeAll_filter_not_eq
    by (rule sorted_wrt_filter)
  moreover have "\<forall>a \<in> set ?rest. touched x \<noteq> Some a"
    using assms(2) by auto
  ultimately have rest: "recency_sorted (ops @ [x]) ?rest"
    by (rule recency_sorted_unchanged)
  have "last_touch (ops @ [x]) a < last_touch (ops @ [x]) k" if "a \<in> set ?rest" for a
  proof -
    from that have "a \<noteq> k" by simp
    with assms(2) have "last_touch (ops @ [x]) a = last_touch ops a"
      by (simp add: last_touch_snoc)
    moreover have "last_touch ops a \<le> length ops" by (rule last_touch_le)
    moreover have "last_touch (ops @ [x]) k = Suc (length ops)"
      using assms(2) by (simp add: last_touch_snoc)
    ultimately show ?thesis by simp
  qed
  with rest show ?thesis
    unfolding keys_reinserted recency_sorted_def by (simp add: sorted_wrt_append)
qed

lemma recency_sorted_tl: "recency_sorted ops ks \<Longrightarrow> recency_sorted ops (tl ks)"
  by (cases ks) (simp_all add: recency_sorted_def)

lemma all_defined_reinserted: "all_defined m \<Longrightarrow> all_defined (reinserted m k (Some v))"
  by (auto simp: all_defined_def reinserted_def Map_delete_def)

lemma all_defined_tl: "all_defined m \<Longrightarrow> all_defined (tl m)"
  by (cases m) (auto simp: all_defined_def)

lemma all_defined_Map_get: "all_defined m \<Longrightarrow> Map_get m k \<noteq> Some None"
  by (auto simp: all_defined_def Map_get_def dest!: map_of_SomeD intro: rev_image_eqI)

lemma Map_get_None_keys: "Map_get m k = None \<Longrightarrow> k \<notin> set (map fst m)"
  by (simp add: Map_get_def map_of_eq_None_iff)

lemma lru_inv_set:
  assumes "lru_inv ops c" and "distinct (map fst (entries c))"
  shows "lru_inv (ops @ [Set k (Some v)]) (LruCache_set c k (Some v))"
proof -
  have "recency_sorted (ops @ [Set k (Some v)]) (map fst (reinserted (entries c) k (Some v)))"
    using assms(1) by (intro recency_sorted_reinserted) (simp_all add: lru_inv_def cache_keys_def)
  moreover have "all_defined (reinserted (entries c) k (Some v))"
    using assms(1) by (simp add: lru_inv_def all_defined_reinserted)
  ultimately show ?thesis
    by (simp add: lru_inv_def cache_keys_def LruCache_set_entries [OF assms(2)] map_tl
        recency_sorted_tl all_defined_tl)
qed

lemma lru_inv_get:
  assumes "lru_inv ops c"
  shows "lru_inv (ops @ [Get k]) (snd (LruCache_get c k))"
proof (cases "Map_get (entries c) k")
  case None
  then have "k \<notin> set (cache_keys c)"
    unfolding cache_keys_def by (rule Map_get_None_keys)
  then have "\<forall>a \<in> set (cache_keys c). touched (Get k :: 'a cache_op) \<noteq> Some a"
    by auto
  with assms have "recency_sorted (ops @ [Get k]) (cache_keys c)"
    by (intro recency_sorted_unchanged) (simp_all add: lru_inv_def)
  with assms None show ?thesis
    by (simp add: lru_inv_def cache_keys_def LruCache_get_entries)
next
  case (Some y)
  with assms obtain v where v: "y = Some v"
    using all_defined_Map_get [of "entries c" k] by (cases y) (simp_all add: lru_inv_def)
  have "recency_sorted (ops @ [Get k]) (map fst (reinserted (entries c) k (Some v)))"
    using assms by (intro recency_sorted_reinserted) (simp_all add: lru_inv_def cache_keys_def)
  moreover have "all_defined (reinserted (entries c) k (Some v))"
    using assms by (simp add: lru_inv_def all_defined_reinserted)
  ultimately show ?thesis
    using Some v by (simp add: lru_inv_def cache_keys_def LruCache_get_entries)
qed

lemma lru_inv_op:
  assumes "lru_inv ops c" and "distinct (map fst (entries c))" and "\<not> stores_undefined x"
  shows "lru_inv (ops @ [x]) (apply_cache_op c x)"
proof (cases x)
  case (Get k)
  with assms(1) show ?thesis by (simp add: lru_inv_get)
next
  case (Set k v)
  with assms(3) obtain w where "v = Some w" by (cases v) simp_all
  with Set assms(1,2) show ?thesis by (simp add: lru_inv_set)
next
  case (Has k)
  with assms(1) have "recency_sorted (ops @ [x]) (cache_keys c)"
    by (intro recency_sorted_unchanged) (simp_all add: lru_inv_def)
  with Has assms(1) show ?thesis by (simp add: lru_inv_def LruCache_has_def)
next
  case Clear
  then show ?thesis
    by (simp add: lru_inv_def LruCache_clear_def cache_keys_def recency_sorted_def all_defined_def)
qed

lemma distinct_keys_op:
  "distinct (map fst (entries c)) \<Longrightarrow> distinct (map fst (entries (apply_cache_op c x)))"
  by (cases x) (simp_all add: distinct_keys_set distinct_keys_get LruCache_has_def LruCache_clear_def)

lemma distinct_keys_run:
  "distinct (map fst (entries c)) \<Longrightarrow> distinct (map fst (entries (run_cache c ops)))"
  unfolding run_cache_def by (induction ops arbitrary: c) (simp_all add: distinct_keys_op)

lemma defined_values_snoc:
  "defined_values (ops @ [x]) \<longleftrightarrow> defined_values ops \<and> \<not> stores_undefined x"
  by (simp add: defined_values_def)

lemma lru_inv_run:
  "defined_values ops \<Longrightarrow> lru_inv ops (run_cache (LruCache_new N) ops)"
proof (induction ops rule: rev_induct)
  case Nil
  show ?case
    by (simp add: run_cache_def lru_inv_def LruCache_new_def cache_keys_def recency_sorted_def
        all_defined_def)
next
  case (snoc x ops)
  then have "lru_inv ops (run_cache (LruCache_new N) ops)" and "\<not> stores_undefined x"
    by (simp_all add: defined_values_snoc)
  moreover have "distinct (map fst (entries (run_cache (LruCache_new N) ops :: 'a LruCache)))"
    by (rule distinct_keys_run) (simp add: LruCache_new_def)
  ultimately show ?case
    by (simp add: run_cache_snoc lru_inv_op)
qed

section \<open>Eviction takes the least recently touched key\<close>

lemma evicted_is_head:
  assumes "distinct l" and "x \<in> set l" and "x \<notin> set (tl l)"
  shows "x = hd l \<and> set (tl l) = set l - {x}"
  using assms by (cases l) auto

lemma recency_sorted_head_least:
  assumes "recency_sorted ops l"
  shows "\<forall>y \<in> set (tl l). last_touch ops (hd l) < last_touch ops y"
  using assms by (cases l) (simp_all add: recency_sorted_def)

lemma Map_has_get: "Map_has m k \<Longrightarrow> \<exists>y. Map_get m k = Some y"
  unfolding Map_has_def Map_get_def
  by (cases "map_of m k") (simp_all add: map_of_eq_None_iff)

lemma Map_get_defined:
  assumes "all_defined m" and "Map_has m k"
  shows "\<exists>v. Map_get m k = Some (Some v)"
proof -
  have "\<exists>y. Map_get m k = Some y"
    using assms(2) by (rule Map_has_get)
  then obtain y where y: "Map_get m k = Some y" ..
  have ne: "Map_get m k \<noteq> Some None"
    using assms(1) by (rule all_defined_Map_get)
  show ?thesis
  proof (cases y)
    case None
    with y ne show ?thesis by simp
  next
    case (Some v)
    with y show ?thesis by simp
  qed
qed

lemma LruCache_get_promotes:
  assumes "all_defined (entries c)" and "Map_has (entries c) k"
  shows "(\<exists>v. fst (LruCache_get c k) = Some v)
       \<and> cache_keys (snd (LruCache_get c k)) = removeAll k (cache_keys c) @ [k]"
proof -
  have "\<exists>v. Map_get (entries c) k = Some (Some v)"
    using assms by (rule Map_get_defined)
  then obtain v where hit: "Map_get (entries c) k = Some (Some v)" ..
  then have "fst (LruCache_get c k) = Some v"
    by (simp add: LruCache_get_def)
  moreover from hit have "entries (snd (LruCache_get c k)) = reinserted (entries c) k (Some v)"
    by (simp add: LruCache_get_entries)
  then have "cache_keys (snd (LruCache_get c k)) = removeAll k (cache_keys c) @ [k]"
    by (simp add: cache_keys_def keys_reinserted)
  ultimately show ?thesis by blast
qed

lemma LruCache_set_evicts_oldest:
  assumes inv: "lru_inv ops c" and dist: "distinct (map fst (entries c))"
    and x: "x = k \<or> x \<in> set (cache_keys c)"
    and gone: "x \<notin> set (cache_keys (LruCache_set c k (Some v)))"
  shows "set (cache_keys (LruCache_set c k (Some v))) = insert k (set (cache_keys c)) - {x}
       \<and> (\<forall>y \<in> set (cache_keys (LruCache_set c k (Some v))).
             last_touch (ops @ [Set k (Some v)]) x < last_touch (ops @ [Set k (Some v)]) y)"
proof -
  define r where "r = map fst (reinserted (entries c) k (Some v))"
  define after where "after = cache_keys (LruCache_set c k (Some v))"
  let ?ops = "ops @ [Set k (Some v)]"
  have keys: "set r = insert k (set (cache_keys c))"
    by (auto simp: r_def keys_reinserted cache_keys_def)
  have d: "distinct r"
    unfolding r_def using dist by (rule distinct_reinserted)
  have sorted: "recency_sorted ?ops r"
    unfolding r_def using inv
    by (intro recency_sorted_reinserted) (simp_all add: lru_inv_def cache_keys_def)
  have "after = r \<or> after = tl r"
    by (simp add: after_def r_def cache_keys_def LruCache_set_entries [OF dist] map_tl)
  moreover from x keys have xin: "x \<in> set r" by blast
  moreover from gone have "x \<notin> set after" by (simp add: after_def)
  ultimately have tl: "after = tl r" and "x \<notin> set (tl r)"
    by auto
  with d xin have "x = hd r \<and> set (tl r) = set r - {x}"
    by (intro evicted_is_head)
  with recency_sorted_head_least [OF sorted] tl keys
  have "set after = insert k (set (cache_keys c)) - {x}
      \<and> (\<forall>y \<in> set after. last_touch ?ops x < last_touch ?ops y)"
    by simp
  then show ?thesis by (simp add: after_def)
qed

lemma LruCache_set_keeps_new:
  assumes dist: "distinct (map fst (entries c))" and "1 \<le> maxSize c"
  shows "Map_get (entries (LruCache_set c k v)) k = Some v"
proof -
  let ?d = "Map_delete (entries c) k"
  have absent: "k \<notin> fst ` set ?d"
    using Map_has_delete [of "entries c" k] by (simp add: Map_has_def)
  have full: "map_of (?d @ [(k, v)]) k = Some v"
    using absent by (simp add: map_add_Some_iff map_of_eq_None_iff)
  show ?thesis
  proof (cases "maxSize c < int (length (reinserted (entries c) k v))")
    case False
    with full show ?thesis
      by (simp add: LruCache_set_entries [OF dist] Map_get_def reinserted_def)
  next
    case True
    with assms(2) have "?d \<noteq> []" by (auto simp: reinserted_def)
    then obtain p d' where p: "?d = p # d'" by (cases ?d) auto
    with absent have "k \<notin> fst ` set d'" by auto
    then have "map_of (d' @ [(k, v)]) k = Some v"
      by (simp add: map_add_Some_iff map_of_eq_None_iff)
    with True p show ?thesis
      by (simp add: LruCache_set_entries [OF dist] Map_get_def reinserted_def)
  qed
qed

lemma set_op_pair: "set_op (k, v) = Set k v"
  by (simp add: set_op_def)

lemma run_sets_suffix:
  assumes "cache_inv c" and "distinct (map fst kvs)" and "int (length kvs) \<le> maxSize c"
  shows "\<exists>pre. entries (run_cache c (map set_op kvs)) = pre @ kvs"
  using assms(2,3)
proof (induction kvs rule: rev_induct)
  case Nil
  show ?case by simp
next
  case (snoc p kvs)
  let ?c1 = "run_cache c (map set_op kvs)"
  obtain k v where p: "p = (k, v)" by (cases p)
  from snoc obtain pre where pre: "entries ?c1 = pre @ kvs"
    by auto
  have inv1: "cache_inv ?c1" using assms(1) by (rule cache_inv_run)
  then have dist: "distinct (map fst (entries ?c1))" by (simp add: cache_inv_def)
  have ms: "maxSize ?c1 = maxSize c" by (rule maxSize_run)
  from snoc.prems p have "k \<notin> fst ` set kvs" by auto
  then have "Map_delete kvs k = kvs"
    by (intro Map_delete_absent) (simp add: Map_has_def)
  then have r: "reinserted (entries ?c1) k v = Map_delete pre k @ kvs @ [(k, v)]"
    by (simp add: reinserted_def pre Map_delete_def)
  have "\<exists>pre'. entries (LruCache_set ?c1 k v) = pre' @ kvs @ [(k, v)]"
  proof (cases "maxSize ?c1 < int (length (reinserted (entries ?c1) k v))")
    case False
    then show ?thesis by (simp add: LruCache_set_entries [OF dist] r)
  next
    case True
    with snoc.prems(2) ms have "Map_delete pre k \<noteq> []"
      by (auto simp: r)
    then have "tl (Map_delete pre k @ kvs @ [(k, v)]) = tl (Map_delete pre k) @ kvs @ [(k, v)]"
      by simp
    with True show ?thesis by (simp add: LruCache_set_entries [OF dist] r)
  qed
  then show ?case
    by (simp add: run_cache_snoc p set_op_pair)
qed

lemma run_sets_overflow:
  assumes "cache_inv c" and "distinct (map fst kvs)" and "int (length kvs) = maxSize c + 1"
  shows "entries (run_cache c (map set_op kvs)) = tl kvs"
proof (cases kvs rule: rev_cases)
  case Nil
  with assms(1,3) show ?thesis by (simp add: cache_inv_def)
next
  case (snoc kvs' p)
  let ?c1 = "run_cache c (map set_op kvs')"
  obtain k v where p: "p = (k, v)" by (cases p)
  from assms(2,3) snoc have d': "distinct (map fst kvs')" and len: "int (length kvs') = maxSize c"
    by simp_all
  then obtain pre where pre: "entries ?c1 = pre @ kvs'"
    using run_sets_suffix [OF assms(1), of kvs'] by auto
  have inv1: "cache_inv ?c1" using assms(1) by (rule cache_inv_run)
  have ms: "maxSize ?c1 = maxSize c" by (rule maxSize_run)
  from inv1 ms pre len have "pre = []"
    by (simp add: cache_inv_def)
  with pre have e1: "entries ?c1 = kvs'" by simp
  from inv1 have dist: "distinct (map fst (entries ?c1))" by (simp add: cache_inv_def)
  from assms(2) snoc p have "k \<notin> fst ` set kvs'" by auto
  then have "Map_delete kvs' k = kvs'"
    by (intro Map_delete_absent) (simp add: Map_has_def)
  then have r: "reinserted (entries ?c1) k v = kvs' @ [(k, v)]"
    by (simp add: reinserted_def e1)
  show ?thesis
    using len by (simp add: snoc p run_cache_snoc set_op_pair LruCache_set_entries [OF dist] r ms)
qed

lemmas cache_eval =
  run_cache_def LruCache_new_def LruCache_set_def LruCache_get_def LruCache_has_def
  LruCache_clear_def Map_has_def Map_get_def Map_delete_def Map_first_key_def cache_keys_def
  last_touch_def defined_values_def set_op_def

text \<open>
  Claim C1, as amended. Take a cache of capacity \<open>N \<ge> 1\<close> after any sequence \<open>ops\<close> of
  calls in which no \<open>set\<close> stored \<open>undefined\<close>.
  \<^item> \<open>get\<close> of a present key returns its value and moves the key to the newest position.
  \<^item> \<open>set\<close> keeps the key it inserts. When a key that was present (or the inserted one)
    is missing afterwards, it is the only one missing, and its last touch by \<open>get\<close> or
    \<open>set\<close> is earlier than the last touch of every key that stayed.
  \<^item> \<open>N + 1\<close> \<open>set\<close> calls with pairwise different keys leave exactly the last \<open>N\<close> of
    them, in order.
  \<^item> With capacity 2, \<open>set(A)\<close>, \<open>set(B)\<close>, \<open>get(A)\<close>, \<open>set(C)\<close> leave \<open>A\<close> and \<open>C\<close>.
\<close>

theorem LruCache_evicts_least_recently_touched:
  assumes "1 \<le> N" and "defined_values ops" and "c = run_cache (LruCache_new N) ops"
  shows "(Map_has (entries c) k \<longrightarrow>
            (\<exists>w. fst (LruCache_get c k) = Some w)
          \<and> cache_keys (snd (LruCache_get c k)) = removeAll k (cache_keys c) @ [k])
       \<and> k \<in> set (cache_keys (LruCache_set c k (Some v)))
       \<and> (\<forall>x. (x = k \<or> x \<in> set (cache_keys c))
               \<and> x \<notin> set (cache_keys (LruCache_set c k (Some v))) \<longrightarrow>
              set (cache_keys (LruCache_set c k (Some v))) = insert k (set (cache_keys c)) - {x}
            \<and> (\<forall>y \<in> set (cache_keys (LruCache_set c k (Some v))).
                  last_touch (ops @ [Set k (Some v)]) x < last_touch (ops @ [Set k (Some v)]) y))
       \<and> (distinct (map fst kvs) \<and> int (length kvs) = N + 1 \<longrightarrow>
              entries (run_cache c (map set_op kvs)) = tl kvs)
       \<and> cache_keys (run_cache (LruCache_new 2)
            [Set ''A'' (Some a), Set ''B'' (Some b), Get ''A'', Set ''C'' (Some v)]) = [''A'', ''C'']"
proof -
  have inv: "lru_inv ops c"
    unfolding assms(3) using assms(2) by (rule lru_inv_run)
  have cinv: "cache_inv c"
    unfolding assms(3) using assms(1) by (intro cache_inv_run cache_inv_new) simp
  then have dist: "distinct (map fst (entries c))"
    by (simp add: cache_inv_def)
  have ms: "maxSize c = N"
    by (simp add: assms(3) maxSize_run LruCache_new_def)
  have promote: "Map_has (entries c) k \<longrightarrow>
            (\<exists>w. fst (LruCache_get c k) = Some w)
          \<and> cache_keys (snd (LruCache_get c k)) = removeAll k (cache_keys c) @ [k]"
    using inv LruCache_get_promotes [of c k] by (simp add: lru_inv_def)
  have "Map_get (entries (LruCache_set c k (Some v))) k = Some (Some v)"
    using dist assms(1) ms by (intro LruCache_set_keeps_new) simp_all
  then have "Map_has (entries (LruCache_set c k (Some v))) k"
    by (rule Map_get_Some_has)
  then have kept: "k \<in> set (cache_keys (LruCache_set c k (Some v)))"
    by (simp add: Map_has_def cache_keys_def)
  have evict: "\<forall>x. (x = k \<or> x \<in> set (cache_keys c))
               \<and> x \<notin> set (cache_keys (LruCache_set c k (Some v))) \<longrightarrow>
              set (cache_keys (LruCache_set c k (Some v))) = insert k (set (cache_keys c)) - {x}
            \<and> (\<forall>y \<in> set (cache_keys (LruCache_set c k (Some v))).
                  last_touch (ops @ [Set k (Some v)]) x < last_touch (ops @ [Set k (Some v)]) y)"
    using LruCache_set_evicts_oldest [OF inv dist] by blast
  have many: "distinct (map fst kvs) \<and> int (length kvs) = N + 1 \<longrightarrow>
              entries (run_cache c (map set_op kvs)) = tl kvs"
    using run_sets_overflow [OF cinv, of kvs] ms by simp
  have example: "cache_keys (run_cache (LruCache_new 2)
            [Set ''A'' (Some a), Set ''B'' (Some b), Get ''A'', Set ''C'' (Some v)]) = [''A'', ''C'']"
    by (simp add: cache_eval)
  from promote kept evict many example show ?thesis
    by (intro conjI)
qed

theorem LruCache_evicts_least_recently_touched_witness:
  "(1::int) \<le> 2
   \<and> defined_values [Set ''A'' (Some (1::nat)), Set ''B'' (Some 2), Get ''A'']
   \<and> cache_keys (run_cache (LruCache_new 2) [Set ''A'' (Some (1::nat)), Set ''B'' (Some 2)]) = [''A'', ''B'']
   \<and> cache_keys (run_cache (LruCache_new 2) [Set ''A'' (Some (1::nat)), Set ''B'' (Some 2), Get ''A'']) = [''B'', ''A'']
   \<and> cache_keys (LruCache_set (run_cache (LruCache_new 2)
         [Set ''A'' (Some (1::nat)), Set ''B'' (Some 2), Get ''A'']) ''C'' (Some 3)) = [''A'', ''C'']
   \<and> last_touch [Set ''A'' (Some (1::nat)), Set ''B'' (Some 2), Get ''A'', Set ''C'' (Some 3)] ''B''
       < last_touch [Set ''A'' (Some (1::nat)), Set ''B'' (Some 2), Get ''A'', Set ''C'' (Some 3)] ''A''
   \<and> entries (run_cache (run_cache (LruCache_new 2)
         [Set ''A'' (Some (1::nat)), Set ''B'' (Some 2), Get ''A''])
         (map set_op [(''x'', Some 7), (''y'', Some 8), (''z'', Some 9)]))
       = [(''y'', Some 8), (''z'', Some 9)]"
  using LruCache_evicts_least_recently_touched
    [of 2 "[Set ''A'' (Some (1::nat)), Set ''B'' (Some 2), Get ''A'']"
        "run_cache (LruCache_new 2) [Set ''A'' (Some (1::nat)), Set ''B'' (Some 2), Get ''A'']"
        "''C''" 3 "[(''x'', Some 7), (''y'', Some 8), (''z'', Some 9)]" 1 2]
  by (simp add: cache_eval)

text \<open>
  Claim C1 as it was stated fails when a stored value is \<open>undefined\<close>: \<open>A\<close> is present
  (\<open>has\<close> says so), \<open>get(A)\<close> takes the early return and does not move it, and the next
  overflowing \<open>set\<close> evicts \<open>A\<close> although \<open>B\<close> was touched less recently.
\<close>

theorem LruCache_get_skips_undefined_value_counterexample:
  "Map_has (entries (run_cache (LruCache_new 2) [Set ''A'' None, Set ''B'' (Some (1::nat))])) ''A''
   \<and> cache_keys (run_cache (LruCache_new 2)
        [Set ''A'' None, Set ''B'' (Some (1::nat)), Get ''A'']) = [''A'', ''B'']
   \<and> cache_keys (run_cache (LruCache_new 2)
        [Set ''A'' None, Set ''B'' (Some (1::nat)), Get ''A'', Set ''C'' (Some 2)]) = [''B'', ''C'']
   \<and> last_touch [Set ''A'' None, Set ''B'' (Some (1::nat)), Get ''A'', Set ''C'' (Some 2)] ''B''
       < last_touch [Set ''A'' None, Set ''B'' (Some (1::nat)), Get ''A'', Set ''C'' (Some 2)] ''A''"
  by (simp add: cache_eval)

section \<open>The windows of the rate limiter\<close>

lemma map_of_Map_set: "map_of (Map_set m k v) = (map_of m)(k \<mapsto> v)"
  by (induction m) (auto simp: fun_eq_iff)

lemma Map_get_Map_set: "Map_get (Map_set m k v) k' = (if k' = k then Some v else Map_get m k')"
  by (simp add: Map_get_def map_of_Map_set)

lemma check_fresh:
  assumes "Map_get (store_entries st) key = None
         \<or> (\<exists>e. Map_get (store_entries st) key = Some e \<and> resetAt e \<le> now)"
  shows "check st now key = fresh_window st now key"
  using assms by (auto simp: check_def)

lemma fresh_window_result:
  "fst (fresh_window st now key)
     = \<lparr>isLimited = False, remaining = store_maxRequests st - 1,
        result_resetAt = now + store_windowMs st\<rparr>"
  by (simp add: fresh_window_def Let_def)

lemma fresh_window_store:
  "Map_get (store_entries (snd (fresh_window st now key))) key
     = Some \<lparr>count = 1, resetAt = now + store_windowMs st\<rparr>
   \<and> store_maxRequests (snd (fresh_window st now key)) = store_maxRequests st
   \<and> store_windowMs (snd (fresh_window st now key)) = store_windowMs st"
  by (simp add: fresh_window_def Let_def Map_get_Map_set)

lemma check_in_window:
  assumes "Map_get (store_entries st) key = Some \<lparr>count = n, resetAt = r\<rparr>" and "now < r"
  shows "fst (check st now key)
           = \<lparr>isLimited = (store_maxRequests st < n + 1),
              remaining = (if store_maxRequests st < n + 1 then 0 else store_maxRequests st - (n + 1)),
              result_resetAt = r\<rparr>"
    and "Map_get (store_entries (snd (check st now key))) key = Some \<lparr>count = n + 1, resetAt = r\<rparr>"
    and "store_maxRequests (snd (check st now key)) = store_maxRequests st"
    and "store_windowMs (snd (check st now key)) = store_windowMs st"
  using assms by (simp_all add: check_def Let_def Map_get_Map_set)

lemma checks_in_window:
  assumes "Map_get (store_entries st) key = Some \<lparr>count = n, resetAt = r\<rparr>"
    and "\<forall>t \<in> set ts. t < r"
  shows "length (fst (checks st key ts)) = length ts
       \<and> (\<forall>i < length ts. fst (checks st key ts) ! i
             = \<lparr>isLimited = (store_maxRequests st < n + 1 + int i),
                remaining = (if store_maxRequests st < n + 1 + int i then 0
                             else store_maxRequests st - (n + 1 + int i)),
                result_resetAt = r\<rparr>)
       \<and> Map_get (store_entries (snd (checks st key ts))) key
             = Some \<lparr>count = n + int (length ts), resetAt = r\<rparr>"
  using assms
proof (induction ts arbitrary: st n)
  case Nil
  then show ?case by simp
next
  case (Cons t ts)
  obtain res st' where c: "check st t key = (res, st')" by (cases "check st t key")
  obtain rs st'' where cs: "checks st' key ts = (rs, st'')" by (cases "checks st' key ts")
  from Cons.prems have t: "t < r" and later: "\<forall>t \<in> set ts. t < r" by simp_all
  note cw = check_in_window [OF Cons.prems(1) t]
  from cw(1) c have res: "res = \<lparr>isLimited = (store_maxRequests st < n + 1),
              remaining = (if store_maxRequests st < n + 1 then 0 else store_maxRequests st - (n + 1)),
              result_resetAt = r\<rparr>" by simp
  from cw(2) c have e': "Map_get (store_entries st') key = Some \<lparr>count = n + 1, resetAt = r\<rparr>"
    by simp
  from cw(3) c have m': "store_maxRequests st' = store_maxRequests st" by simp
  note ih = Cons.IH [OF e' later]
  have len: "length rs = length ts" using ih cs by simp
  have nth: "\<forall>i < length ts. rs ! i
             = \<lparr>isLimited = (store_maxRequests st < n + 1 + 1 + int i),
                remaining = (if store_maxRequests st < n + 1 + 1 + int i then 0
                             else store_maxRequests st - (n + 1 + 1 + int i)),
                result_resetAt = r\<rparr>"
    using ih cs m' by simp
  have fin: "Map_get (store_entries st'') key = Some \<lparr>count = n + 1 + int (length ts), resetAt = r\<rparr>"
    using ih cs by simp
  have all: "(res # rs) ! i
             = \<lparr>isLimited = (store_maxRequests st < n + 1 + int i),
                remaining = (if store_maxRequests st < n + 1 + int i then 0
                             else store_maxRequests st - (n + 1 + int i)),
                result_resetAt = r\<rparr>" if "i < Suc (length ts)" for i
  proof (cases i)
    case 0
    with res show ?thesis by simp
  next
    case (Suc j)
    with that have "j < length ts" by simp
    with nth have "rs ! j = \<lparr>isLimited = (store_maxRequests st < n + 1 + 1 + int j),
                remaining = (if store_maxRequests st < n + 1 + 1 + int j then 0
                             else store_maxRequests st - (n + 1 + 1 + int j)),
                result_resetAt = r\<rparr>" by blast
    with Suc show ?thesis by (simp add: add.assoc)
  qed
  show ?case
    using len all fin by (simp add: c cs add.assoc)
qed


text \<open>
  A live window survives what happens between the calls for its key: a \<open>check\<close> for
  another key does not change the entry, and a run of the cleanup timer before
  \<open>resetAt\<close> keeps it.
\<close>

lemma check_other_key:
  assumes "key' \<noteq> key"
  shows "Map_get (store_entries (snd (check st now key'))) key = Map_get (store_entries st) key"
  using assms
  by (simp add: check_def fresh_window_def Let_def Map_get_Map_set split: option.splits)

lemma map_of_filter_kept:
  assumes "map_of m k = Some e" and "P (k, e)"
  shows "map_of (filter P m) k = Some e"
  using assms by (induction m) (auto split: if_splits)

lemma cleanup_keeps_live_window:
  assumes "Map_get (store_entries st) key = Some e" and "now < resetAt e"
  shows "Map_get (store_entries (cleanup st now)) key = Some e"
proof -
  have "map_of (filter (\<lambda>p. \<not> resetAt (snd p) \<le> now) (store_entries st)) key = Some e"
    using assms by (intro map_of_filter_kept) (simp_all add: Map_get_def)
  then show ?thesis
    by (simp add: cleanup_def Map_get_def)
qed

lemmas limiter_eval =
  RateLimiterStore_new_def check_def fresh_window_def Map_get_def createRateLimiter_def
  rateLimiterMiddleware_def setHeader_def status_def json_def new_Response_def ceil_div_1000_def

text \<open>
  Claim C2. Let the threshold be \<open>M \<ge> 1\<close> and let the key have no entry, or one whose
  \<open>resetAt\<close> has passed at the time \<open>t1\<close> of the first call. For calls at \<open>t1\<close> and
  then at any times before \<open>t1 + windowMs\<close>, call number \<open>i + 1\<close> returns
  \<open>resetAt = t1 + windowMs\<close>; it is admitted with \<open>remaining = M - 1 - i\<close> while
  \<open>i < M\<close>, and denied with \<open>remaining = 0\<close> from call \<open>M + 1\<close> on. The entry keeps its
  \<open>resetAt\<close> and counts every call, the denied ones too.
\<close>

theorem check_window_sequence:
  assumes "1 \<le> store_maxRequests st"
    and "Map_get (store_entries st) key = None
         \<or> (\<exists>e. Map_get (store_entries st) key = Some e \<and> resetAt e \<le> t1)"
    and "\<forall>t \<in> set ts. t < t1 + store_windowMs st"
  shows "length (fst (checks st key (t1 # ts))) = Suc (length ts)
       \<and> (\<forall>i \<le> length ts. fst (checks st key (t1 # ts)) ! i
             = \<lparr>isLimited = (store_maxRequests st \<le> int i),
                remaining = (if int i < store_maxRequests st then store_maxRequests st - 1 - int i else 0),
                result_resetAt = t1 + store_windowMs st\<rparr>)
       \<and> Map_get (store_entries (snd (checks st key (t1 # ts)))) key
             = Some \<lparr>count = 1 + int (length ts), resetAt = t1 + store_windowMs st\<rparr>"
proof -
  let ?M = "store_maxRequests st" and ?r = "t1 + store_windowMs st"
  obtain res st' where c: "check st t1 key = (res, st')" by (cases "check st t1 key")
  obtain rs st'' where cs: "checks st' key ts = (rs, st'')" by (cases "checks st' key ts")
  have fresh: "check st t1 key = fresh_window st t1 key"
    using assms(2) by (rule check_fresh)
  from fresh c have fw: "fresh_window st t1 key = (res, st')"
    by simp
  have res: "res = \<lparr>isLimited = False, remaining = ?M - 1, result_resetAt = ?r\<rparr>"
    using fresh_window_result [of st t1 key] unfolding fw by simp
  have e': "Map_get (store_entries st') key = Some \<lparr>count = 1, resetAt = ?r\<rparr>"
    and m': "store_maxRequests st' = ?M"
    using fresh_window_store [of st t1 key] unfolding fw by simp_all
  note later = checks_in_window [OF e' assms(3)]
  have len: "length rs = length ts" using later cs by simp
  have nth: "\<forall>j < length ts. rs ! j
             = \<lparr>isLimited = (?M < 1 + 1 + int j),
                remaining = (if ?M < 1 + 1 + int j then 0 else ?M - (1 + 1 + int j)),
                result_resetAt = ?r\<rparr>"
    using later cs m' by simp
  have fin: "Map_get (store_entries st'') key = Some \<lparr>count = 1 + int (length ts), resetAt = ?r\<rparr>"
    using later cs by simp
  have all: "(res # rs) ! i
             = \<lparr>isLimited = (?M \<le> int i),
                remaining = (if int i < ?M then ?M - 1 - int i else 0),
                result_resetAt = ?r\<rparr>" if "i \<le> length ts" for i
  proof (cases i)
    case 0
    with res assms(1) show ?thesis by simp
  next
    case (Suc j)
    with that have "j < length ts" by simp
    with nth have "rs ! j = \<lparr>isLimited = (?M < 1 + 1 + int j),
                remaining = (if ?M < 1 + 1 + int j then 0 else ?M - (1 + 1 + int j)),
                result_resetAt = ?r\<rparr>" by blast
    with Suc show ?thesis by auto
  qed
  show ?thesis
    using len all fin by (simp add: c cs)
qed

theorem check_window_sequence_witness:
  "1 \<le> store_maxRequests (RateLimiterStore_new 60000 2)
   \<and> Map_get (store_entries (RateLimiterStore_new 60000 2)) ''k'' = None
   \<and> fst (checks (RateLimiterStore_new 60000 2) ''k'' [0, 1, 2, 59999])
       = [\<lparr>isLimited = False, remaining = 1, result_resetAt = 60000\<rparr>,
          \<lparr>isLimited = False, remaining = 0, result_resetAt = 60000\<rparr>,
          \<lparr>isLimited = True, remaining = 0, result_resetAt = 60000\<rparr>,
          \<lparr>isLimited = True, remaining = 0, result_resetAt = 60000\<rparr>]
   \<and> Map_get (store_entries (snd (checks (RateLimiterStore_new 60000 2) ''k'' [0, 1, 2, 59999]))) ''k''
       = Some \<lparr>count = 4, resetAt = 60000\<rparr>"
  using check_window_sequence [of "RateLimiterStore_new 60000 2" "''k''" 0 "[1, 2, 59999]"]
  by (simp add: limiter_eval)

text \<open>
  Claim C10. A \<open>check\<close> for a key with no live window is admitted whatever the
  threshold is, with \<open>remaining = maxRequests - 1\<close>; with \<open>maxRequests = 0\<close> that is \<open>-1\<close>.
\<close>

theorem check_fresh_window_admits:
  assumes "Map_get (store_entries st) key = None
         \<or> (\<exists>e. Map_get (store_entries st) key = Some e \<and> resetAt e \<le> now)"
  shows "isLimited (fst (check st now key)) = False
       \<and> remaining (fst (check st now key)) = store_maxRequests st - 1
       \<and> result_resetAt (fst (check st now key)) = now + store_windowMs st
       \<and> (store_maxRequests st = 0 \<longrightarrow> remaining (fst (check st now key)) = - 1)"
proof -
  have "check st now key = fresh_window st now key"
    using assms by (rule check_fresh)
  then show ?thesis
    by (simp add: fresh_window_result)
qed

theorem check_fresh_window_admits_witness:
  "Map_get (store_entries (RateLimiterStore_new 60000 0)) ''k'' = None
   \<and> fst (check (RateLimiterStore_new 60000 0) 5 ''k'')
       = \<lparr>isLimited = False, remaining = - 1, result_resetAt = 60005\<rparr>"
  using check_fresh_window_admits [of "RateLimiterStore_new 60000 0" "''k''" 5]
  by (simp add: limiter_eval)


section \<open>The denial branch of the middleware\<close>

lemma ceil_div_1000_ceiling: "ceil_div_1000 x = \<lceil>real_of_int x / 1000\<rceil>"
proof -
  have "\<lceil>real_of_int x / real_of_int 1000\<rceil> = - (- x div 1000)"
    by (rule ceiling_divide_eq_div)
  then show ?thesis by (simp add: ceil_div_1000_def)
qed

lemma ceil_div_1000_nonneg: "0 \<le> ceil_div_1000 x \<longleftrightarrow> - 1000 < x"
  unfolding ceil_div_1000_def by linarith

lemma rateLimiterMiddleware_unfold:
  "rateLimiterMiddleware options store ip res now now' =
     (let result = fst (check store now (client_key ip));
          store' = snd (check store now (client_key ip));
          res3 = setHeader (setHeader (setHeader res ''X-RateLimit-Limit'' (maxRequests options))
                   ''X-RateLimit-Remaining'' (remaining result))
                   ''X-RateLimit-Reset'' (ceil_div_1000 (result_resetAt result))
      in if isLimited result
         then (json (status (setHeader res3 ''Retry-After''
                               (ceil_div_1000 (result_resetAt result - now'))) 429)
                 (ErrorEnvelope False (message options) (code options)), store', False)
         else (res3, store', True))"
  by (simp add: rateLimiterMiddleware_def client_key_def Let_def split_beta)

text \<open>
  Claim C3, as amended. On a denied request the middleware sets \<open>Retry-After\<close> to
  \<open>ceil((resetAt - now') / 1000)\<close>, where \<open>now'\<close> is the clock reading it takes after
  \<open>check\<close>, with no clamping: the value is non-negative exactly when
  \<open>now' < resetAt + 1000\<close>. It answers with status 429 and the configured message and
  code, and does not call \<open>next()\<close>.
\<close>

theorem rateLimiterMiddleware_denied:
  assumes "isLimited (fst (check store now (client_key ip)))"
  shows "Map_get (headers (fst (rateLimiterMiddleware options store ip res now now'))) ''Retry-After''
           = Some (ceil_div_1000 (result_resetAt (fst (check store now (client_key ip))) - now'))
       \<and> ceil_div_1000 (result_resetAt (fst (check store now (client_key ip))) - now')
           = \<lceil>real_of_int (result_resetAt (fst (check store now (client_key ip))) - now') / 1000\<rceil>
       \<and> (0 \<le> ceil_div_1000 (result_resetAt (fst (check store now (client_key ip))) - now')
            \<longleftrightarrow> now' < result_resetAt (fst (check store now (client_key ip))) + 1000)
       \<and> statusCode (fst (rateLimiterMiddleware options store ip res now now')) = 429
       \<and> body (fst (rateLimiterMiddleware options store ip res now now'))
           = Some (ErrorEnvelope False (message options) (code options))
       \<and> snd (snd (rateLimiterMiddleware options store ip res now now')) = False"
proof -
  let ?R = "result_resetAt (fst (check store now (client_key ip)))"
  have mw: "rateLimiterMiddleware options store ip res now now' =
      (json (status (setHeader (setHeader (setHeader (setHeader res
           ''X-RateLimit-Limit'' (maxRequests options))
           ''X-RateLimit-Remaining'' (remaining (fst (check store now (client_key ip)))))
           ''X-RateLimit-Reset'' (ceil_div_1000 ?R))
           ''Retry-After'' (ceil_div_1000 (?R - now'))) 429)
         (ErrorEnvelope False (message options) (code options)),
       snd (check store now (client_key ip)), False)"
    using assms by (simp add: rateLimiterMiddleware_unfold Let_def)
  have hdr: "Map_get (headers (fst (rateLimiterMiddleware options store ip res now now'))) ''Retry-After''
           = Some (ceil_div_1000 (?R - now'))"
    unfolding mw by (simp add: json_def status_def setHeader_def Map_get_Map_set)
  have ceil: "ceil_div_1000 (?R - now') = \<lceil>real_of_int (?R - now') / 1000\<rceil>"
    by (rule ceil_div_1000_ceiling)
  have sign: "0 \<le> ceil_div_1000 (?R - now') \<longleftrightarrow> now' < ?R + 1000"
    by (simp add: ceil_div_1000_nonneg) arith
  have rest: "statusCode (fst (rateLimiterMiddleware options store ip res now now')) = 429"
    "body (fst (rateLimiterMiddleware options store ip res now now'))
           = Some (ErrorEnvelope False (message options) (code options))"
    "snd (snd (rateLimiterMiddleware options store ip res now now')) = False"
    unfolding mw by (simp_all add: json_def status_def)
  from hdr ceil sign rest show ?thesis
    by (intro conjI)
qed

theorem rateLimiterMiddleware_denied_witness:
  "isLimited (fst (check store_after_first_request 500 (client_key (Some ''10.0.0.1''))))
   \<and> Map_get (headers (fst (rateLimiterMiddleware example_options store_after_first_request
          (Some ''10.0.0.1'') new_Response 500 501))) ''Retry-After'' = Some 1
   \<and> statusCode (fst (rateLimiterMiddleware example_options store_after_first_request
          (Some ''10.0.0.1'') new_Response 500 501)) = 429
   \<and> body (fst (rateLimiterMiddleware example_options store_after_first_request
          (Some ''10.0.0.1'') new_Response 500 501))
        = Some (ErrorEnvelope False ''Too many requests'' ''RATE_LIMIT_EXCEEDED'')
   \<and> snd (snd (rateLimiterMiddleware example_options store_after_first_request
          (Some ''10.0.0.1'') new_Response 500 501)) = False"
  using rateLimiterMiddleware_denied [of store_after_first_request 500 "Some ''10.0.0.1''"
          example_options new_Response 501]
  by (simp add: limiter_eval example_options_def store_after_first_request_def client_key_def)

text \<open>
  Claim C3 as it was stated fails: the first request at time 0 is admitted and opens
  the window up to 1000; the second is checked at 999 and denied; when the middleware
  reads the clock again at 2000, \<open>Retry-After\<close> is \<open>-1\<close>.
\<close>

theorem rateLimiterMiddleware_negative_Retry_After_counterexample:
  "snd (snd (rateLimiterMiddleware example_options (createRateLimiter example_options)
          (Some ''10.0.0.1'') new_Response 0 0)) = True
   \<and> snd (snd (rateLimiterMiddleware example_options store_after_first_request
          (Some ''10.0.0.1'') new_Response 999 2000)) = False
   \<and> statusCode (fst (rateLimiterMiddleware example_options store_after_first_request
          (Some ''10.0.0.1'') new_Response 999 2000)) = 429
   \<and> Map_get (headers (fst (rateLimiterMiddleware example_options store_after_first_request
          (Some ''10.0.0.1'') new_Response 999 2000))) ''Retry-After'' = Some (- 1)"
  by (simp add: limiter_eval example_options_def store_after_first_request_def)

lemma LruCache_get_result: "fst (LruCache_get c k) = cached_at c k"
  by (simp add: LruCache_get_def cached_at_def split: option.splits)

lemma LruCache_get_miss: "cached_at c k = None \<Longrightarrow> snd (LruCache_get c k) = c"
  by (simp add: LruCache_get_def cached_at_def split: option.splits)

lemma map_of_Map_delete: "map_of (Map_delete m k) k' = (if k' = k then None else map_of m k')"
  by (induction m) (auto simp: Map_delete_def)

lemma map_of_reinserted:
  "map_of (reinserted m k v) k' = (if k' = k then Some v else map_of m k')"
  by (simp add: reinserted_def map_add_def map_of_Map_delete split: option.splits)

lemma cached_at_get: "cached_at (snd (LruCache_get c k)) k' = cached_at c k'"
proof (cases "Map_get (entries c) k")
  case None
  then show ?thesis by (simp add: LruCache_get_def)
next
  case (Some y)
  show ?thesis
  proof (cases y)
    case None
    with Some show ?thesis by (simp add: LruCache_get_def)
  next
    case (Some v)
    with \<open>Map_get (entries c) k = Some y\<close>
    have hit: "Map_get (entries c) k = Some (Some v)" by simp
    then have "entries (snd (LruCache_get c k)) = reinserted (entries c) k (Some v)"
      by (simp add: LruCache_get_entries)
    with hit show ?thesis
      by (simp add: cached_at_def Map_get_def map_of_reinserted)
  qed
qed

lemma cached_at_set_same:
  assumes "distinct (cache_keys c)" and "1 \<le> maxSize c"
  shows "cached_at (LruCache_set c k (Some v)) k = Some v"
proof -
  have "Map_get (entries (LruCache_set c k (Some v))) k = Some (Some v)"
    using assms unfolding cache_keys_def by (rule LruCache_set_keeps_new)
  then show ?thesis by (simp add: cached_at_def)
qed

lemma map_of_tl_distinct:
  assumes "distinct (map fst m)" and "map_of (tl m) k = Some x"
  shows "map_of m k = Some x"
proof (cases m)
  case Nil
  with assms(2) show ?thesis by simp
next
  case (Cons p m')
  with assms(2) have "map_of m' k = Some x" by simp
  then have "k \<in> fst ` set m'"
    by (metis domI dom_map_of_conv_image_fst)
  moreover from assms(1) Cons have "fst p \<notin> fst ` set m'" by simp
  ultimately have "k \<noteq> fst p" by blast
  with \<open>map_of m' k = Some x\<close> Cons show ?thesis by (cases p) simp
qed

lemma cached_at_set_new:
  assumes "distinct (cache_keys c)" and "cached_at (LruCache_set c k v) k' = Some l"
  shows "(k' = k \<and> v = Some l) \<or> cached_at c k' = Some l"
proof -
  have dist: "distinct (map fst (entries c))"
    using assms(1) by (simp add: cache_keys_def)
  have dr: "distinct (map fst (reinserted (entries c) k v))"
    using dist by (rule distinct_reinserted)
  from assms(2) have got: "map_of (entries (LruCache_set c k v)) k' = Some (Some l)"
    by (simp add: cached_at_def Map_get_def split: option.splits)
  have "map_of (reinserted (entries c) k v) k' = Some (Some l)"
  proof (cases "maxSize c < int (length (reinserted (entries c) k v))")
    case True
    with got have "map_of (tl (reinserted (entries c) k v)) k' = Some (Some l)"
      by (simp add: LruCache_set_entries [OF dist])
    with dr show ?thesis by (rule map_of_tl_distinct)
  next
    case False
    with got show ?thesis by (simp add: LruCache_set_entries [OF dist])
  qed
  then show ?thesis
    by (simp add: map_of_reinserted cached_at_def Map_get_def split: if_splits)
qed

lemma shortenUrl_invalid:
  "\<not> url_parses pf url \<Longrightarrow>
     shortenUrl pf s url now = (Inl (AppError ''Invalid URL provided'' 400 ''INVALID_URL''), s)"
  by (simp add: shortenUrl_def validateUrl_def)

lemma shortenUrl_hit:
  assumes "url_parses pf url" and "cached_at (urlCache s) url = Some l"
  shows "shortenUrl pf s url now = (Inr l, s\<lparr>urlCache := snd (LruCache_get (urlCache s) url)\<rparr>)"
proof -
  have "fst (LruCache_get (urlCache s) url) = Some l"
    using assms(2) by (simp add: LruCache_get_result)
  then show ?thesis
    using assms(1) by (simp add: shortenUrl_def validateUrl_def split_beta)
qed

lemma shortenUrl_miss:
  assumes "url_parses pf url" and "cached_at (urlCache s) url = None"
  shows "shortenUrl pf s url now =
           (Inr (new_link pf s url now),
            s\<lparr>shortCodeCache := LruCache_set (shortCodeCache s)
                                   (shortCode (new_link pf s url now)) (Some (new_link pf s url now)),
              urlCache := LruCache_set (urlCache s) url (Some (new_link pf s url now)),
              linkRepository := snd (save (linkRepository s) (new_link pf s url now)),
              idsGenerated := Suc (Suc (idsGenerated s))\<rparr>)"
proof -
  have "fst (LruCache_get (urlCache s) url) = None"
    using assms(2) by (simp add: LruCache_get_result)
  moreover have "snd (LruCache_get (urlCache s) url) = urlCache s"
    using assms(2) by (rule LruCache_get_miss)
  ultimately show ?thesis
    using assms(1)
    by (simp add: shortenUrl_def validateUrl_def generateShortId_def save_def new_link_def
        split_beta Let_def)
qed

lemma resolveShortCode_hit:
  assumes "cached_at (shortCodeCache s) sc = Some l"
  shows "resolveShortCode s sc
           = (Inr l, s\<lparr>shortCodeCache := snd (LruCache_get (shortCodeCache s) sc)\<rparr>)"
proof -
  have "fst (LruCache_get (shortCodeCache s) sc) = Some l"
    using assms by (simp add: LruCache_get_result)
  then show ?thesis
    by (simp add: resolveShortCode_def split_beta)
qed

lemma resolveShortCode_absent:
  assumes "cached_at (shortCodeCache s) sc = None"
    and "fst (findByShortCode (linkRepository s) sc) = None"
  shows "resolveShortCode s sc
           = (Inl (AppError ''Short link not found'' 404 ''LINK_NOT_FOUND''),
              s\<lparr>linkRepository := snd (findByShortCode (linkRepository s) sc)\<rparr>)"
proof -
  have "fst (LruCache_get (shortCodeCache s) sc) = None"
    using assms(1) by (simp add: LruCache_get_result)
  moreover have "snd (LruCache_get (shortCodeCache s) sc) = shortCodeCache s"
    using assms(1) by (rule LruCache_get_miss)
  ultimately show ?thesis
    using assms(2) by (simp add: resolveShortCode_def split_beta Let_def)
qed

lemma resolveShortCode_found:
  assumes "cached_at (shortCodeCache s) sc = None"
    and "fst (findByShortCode (linkRepository s) sc) = Some l"
  shows "resolveShortCode s sc
           = (Inr l,
              s\<lparr>shortCodeCache := LruCache_set (shortCodeCache s) sc (Some l),
                urlCache := LruCache_set (urlCache s) (originalUrl l) (Some l),
                linkRepository := snd (findByShortCode (linkRepository s) sc)\<rparr>)"
proof -
  have "fst (LruCache_get (shortCodeCache s) sc) = None"
    using assms(1) by (simp add: LruCache_get_result)
  moreover have "snd (LruCache_get (shortCodeCache s) sc) = shortCodeCache s"
    using assms(1) by (rule LruCache_get_miss)
  ultimately show ?thesis
    using assms(2) by (simp add: resolveShortCode_def split_beta Let_def)
qed

lemma findByShortCode_shortCode:
  "fst (findByShortCode r sc) = Some l \<Longrightarrow> shortCode l = sc"
  by (auto simp: findByShortCode_def find_Some_iff)


lemma service_inv_new: "service_inv (LinkService_new r)"
  by (simp add: service_inv_def LinkService_new_def LruCache_new_def cache_keys_def CACHE_MAX_SIZE_def)

lemma cache_keys_get: "distinct (cache_keys c) \<Longrightarrow> distinct (cache_keys (snd (LruCache_get c k)))"
  unfolding cache_keys_def by (rule distinct_keys_get)

lemma cache_keys_set: "distinct (cache_keys c) \<Longrightarrow> distinct (cache_keys (LruCache_set c k v))"
  unfolding cache_keys_def by (rule distinct_keys_set)

lemma service_inv_shortenUrl:
  assumes "service_inv s"
  shows "service_inv (snd (shortenUrl pf s url now))"
proof (cases "url_parses pf url")
  case False
  with assms show ?thesis by (simp add: shortenUrl_invalid)
next
  case True
  show ?thesis
  proof (cases "cached_at (urlCache s) url")
    case None
    with True assms show ?thesis
      by (simp add: shortenUrl_miss service_inv_def cache_keys_set LruCache_set_maxSize)
  next
    case (Some l)
    with True assms show ?thesis
      by (simp add: shortenUrl_hit service_inv_def cache_keys_get LruCache_get_maxSize)
  qed
qed

lemma service_inv_resolveShortCode:
  assumes "service_inv s"
  shows "service_inv (snd (resolveShortCode s sc))"
proof (cases "cached_at (shortCodeCache s) sc")
  case (Some l)
  with assms show ?thesis
    by (simp add: resolveShortCode_hit service_inv_def cache_keys_get LruCache_get_maxSize)
next
  case None
  show ?thesis
  proof (cases "fst (findByShortCode (linkRepository s) sc)")
    case None
    with \<open>cached_at (shortCodeCache s) sc = None\<close> assms show ?thesis
      by (simp add: resolveShortCode_absent service_inv_def)
  next
    case (Some l)
    with \<open>cached_at (shortCodeCache s) sc = None\<close> assms show ?thesis
      by (simp add: resolveShortCode_found service_inv_def cache_keys_set LruCache_set_maxSize)
  qed
qed

lemma service_inv_call: "service_inv s \<Longrightarrow> service_inv (apply_service_call pf s c)"
  by (cases c) (simp_all add: service_inv_shortenUrl service_inv_resolveShortCode)

lemma service_inv_foldl: "service_inv s \<Longrightarrow> service_inv (foldl (apply_service_call pf) s cs)"
  by (induction cs arbitrary: s) (simp_all add: service_inv_call)

lemma service_inv_run: "service_inv (run_service pf (LinkService_new r) cs)"
  unfolding run_service_def by (rule service_inv_foldl) (rule service_inv_new)


lemma new_link_fields:
  "originalUrl (new_link pf s url now) = url"
  by (simp add: new_link_def)

lemma shortenUrl_new_entries:
  assumes inv: "service_inv s" and s': "s' = snd (shortenUrl pf s url now)"
  shows "(cached_at (shortCodeCache s') k = Some l \<and> cached_at (shortCodeCache s) k \<noteq> Some l
            \<longrightarrow> cached_at (urlCache s') (originalUrl l) = Some l)
       \<and> (cached_at (urlCache s') k = Some l \<and> cached_at (urlCache s) k \<noteq> Some l
            \<longrightarrow> cached_at (shortCodeCache s') (shortCode l) = Some l)"
proof (cases "url_parses pf url")
  case False
  with s' show ?thesis by (simp add: shortenUrl_invalid)
next
  case True
  show ?thesis
  proof (cases "cached_at (urlCache s) url")
    case (Some c)
    with True s' show ?thesis
      by (simp add: shortenUrl_hit cached_at_get)
  next
    case None
    let ?nl = "new_link pf s url now"
    from inv have d1: "distinct (cache_keys (shortCodeCache s))" and d2: "distinct (cache_keys (urlCache s))"
      and m1: "1 \<le> maxSize (shortCodeCache s)" and m2: "1 \<le> maxSize (urlCache s)"
      by (simp_all add: service_inv_def)
    from True None s' have scc: "shortCodeCache s' = LruCache_set (shortCodeCache s) (shortCode ?nl) (Some ?nl)"
      and uc: "urlCache s' = LruCache_set (urlCache s) url (Some ?nl)"
      by (simp_all add: shortenUrl_miss)
    have in_uc: "cached_at (urlCache s') (originalUrl ?nl) = Some ?nl"
      unfolding uc new_link_fields using d2 m2 by (rule cached_at_set_same)
    have in_scc: "cached_at (shortCodeCache s') (shortCode ?nl) = Some ?nl"
      unfolding scc using d1 m1 by (rule cached_at_set_same)
    have a: "cached_at (urlCache s') (originalUrl l) = Some l"
      if "cached_at (shortCodeCache s') k = Some l" and "cached_at (shortCodeCache s) k \<noteq> Some l"
    proof -
      from that(1) have "(k = shortCode ?nl \<and> Some ?nl = Some l) \<or> cached_at (shortCodeCache s) k = Some l"
        unfolding scc using d1 by (intro cached_at_set_new)
      with that(2) have "l = ?nl" by auto
      with in_uc show ?thesis by simp
    qed
    have b: "cached_at (shortCodeCache s') (shortCode l) = Some l"
      if "cached_at (urlCache s') k = Some l" and "cached_at (urlCache s) k \<noteq> Some l"
    proof -
      from that(1) have "(k = url \<and> Some ?nl = Some l) \<or> cached_at (urlCache s) k = Some l"
        unfolding uc using d2 by (intro cached_at_set_new)
      with that(2) have "l = ?nl" by auto
      with in_scc show ?thesis by simp
    qed
    from a b show ?thesis by blast
  qed
qed

lemma resolveShortCode_new_entries:
  assumes inv: "service_inv s" and s': "s' = snd (resolveShortCode s sc)"
  shows "(cached_at (shortCodeCache s') k = Some l \<and> cached_at (shortCodeCache s) k \<noteq> Some l
            \<longrightarrow> cached_at (urlCache s') (originalUrl l) = Some l)
       \<and> (cached_at (urlCache s') k = Some l \<and> cached_at (urlCache s) k \<noteq> Some l
            \<longrightarrow> cached_at (shortCodeCache s') (shortCode l) = Some l)"
proof (cases "cached_at (shortCodeCache s) sc")
  case (Some c)
  with s' show ?thesis
    by (simp add: resolveShortCode_hit cached_at_get)
next
  case None
  show ?thesis
  proof (cases "fst (findByShortCode (linkRepository s) sc)")
    case None
    with \<open>cached_at (shortCodeCache s) sc = None\<close> s' show ?thesis
      by (simp add: resolveShortCode_absent)
  next
    case (Some fl)
    from inv have d1: "distinct (cache_keys (shortCodeCache s))" and d2: "distinct (cache_keys (urlCache s))"
      and m1: "1 \<le> maxSize (shortCodeCache s)" and m2: "1 \<le> maxSize (urlCache s)"
      by (simp_all add: service_inv_def)
    from Some have code: "shortCode fl = sc" by (rule findByShortCode_shortCode)
    from \<open>cached_at (shortCodeCache s) sc = None\<close> Some s'
    have scc: "shortCodeCache s' = LruCache_set (shortCodeCache s) sc (Some fl)"
      and uc: "urlCache s' = LruCache_set (urlCache s) (originalUrl fl) (Some fl)"
      by (simp_all add: resolveShortCode_found)
    have in_uc: "cached_at (urlCache s') (originalUrl fl) = Some fl"
      unfolding uc using d2 m2 by (rule cached_at_set_same)
    have in_scc: "cached_at (shortCodeCache s') (shortCode fl) = Some fl"
      unfolding scc code using d1 m1 by (rule cached_at_set_same)
    have a: "cached_at (urlCache s') (originalUrl l) = Some l"
      if "cached_at (shortCodeCache s') k = Some l" and "cached_at (shortCodeCache s) k \<noteq> Some l"
    proof -
      from that(1) have "(k = sc \<and> Some fl = Some l) \<or> cached_at (shortCodeCache s) k = Some l"
        unfolding scc using d1 by (intro cached_at_set_new)
      with that(2) have "l = fl" by auto
      with in_uc show ?thesis by simp
    qed
    have b: "cached_at (shortCodeCache s') (shortCode l) = Some l"
      if "cached_at (urlCache s') k = Some l" and "cached_at (urlCache s) k \<noteq> Some l"
    proof -
      from that(1) have "(k = originalUrl fl \<and> Some fl = Some l) \<or> cached_at (urlCache s) k = Some l"
        unfolding uc using d2 by (intro cached_at_set_new)
      with that(2) have "l = fl" by auto
      with in_scc show ?thesis by simp
    qed
    from a b show ?thesis by blast
  qed
qed


section \<open>The service: cache population, deduplication and errors\<close>

lemmas service_eval =
  run_service_def LinkService_new_def InMemoryLinkRepository_new_def example_platform_def
  example_link_def example_repository_def shortenUrl_def resolveShortCode_def validateUrl_def
  generateShortId_def save_def findByShortCode_def cached_at_def CACHE_MAX_SIZE_def
  LruCache_new_def LruCache_set_def LruCache_get_def Map_has_def Map_get_def Map_delete_def
  Map_first_key_def status_def json_def Let_def

text \<open>
  Claim C6. Let \<open>s\<close> be any state the service reaches from a new service, and \<open>s'\<close> the
  state after one \<open>shortenUrl\<close> or one \<open>resolveShortCode\<close>. A \<open>Link\<close> that the short-code
  cache holds under some key afterwards and did not hold there before is held by the
  URL cache under its \<open>originalUrl\<close> afterwards; a \<open>Link\<close> newly held by the URL cache is
  held by the short-code cache under its \<open>shortCode\<close>.
\<close>

theorem caches_populated_together:
  assumes "s = run_service pf (LinkService_new r) cs"
    and "s' = snd (shortenUrl pf s url now) \<or> s' = snd (resolveShortCode s sc)"
  shows "(cached_at (shortCodeCache s') k = Some l \<and> cached_at (shortCodeCache s) k \<noteq> Some l
            \<longrightarrow> cached_at (urlCache s') (originalUrl l) = Some l)
       \<and> (cached_at (urlCache s') k = Some l \<and> cached_at (urlCache s) k \<noteq> Some l
            \<longrightarrow> cached_at (shortCodeCache s') (shortCode l) = Some l)"
proof -
  have inv: "service_inv s"
    unfolding assms(1) by (rule service_inv_run)
  from assms(2) show ?thesis
  proof
    assume "s' = snd (shortenUrl pf s url now)"
    with inv show ?thesis by (rule shortenUrl_new_entries)
  next
    assume "s' = snd (resolveShortCode s sc)"
    with inv show ?thesis by (rule resolveShortCode_new_entries)
  qed
qed

theorem caches_populated_together_witness:
  "cached_at (shortCodeCache (snd (shortenUrl example_platform
       (LinkService_new InMemoryLinkRepository_new) ''https://example.com'' 1000))) ''idx''
     = Some example_link
   \<and> cached_at (shortCodeCache (LinkService_new InMemoryLinkRepository_new)) ''idx'' \<noteq> Some example_link
   \<and> cached_at (urlCache (snd (shortenUrl example_platform
       (LinkService_new InMemoryLinkRepository_new) ''https://example.com'' 1000))) ''https://example.com''
     = Some example_link
   \<and> cached_at (urlCache (LinkService_new InMemoryLinkRepository_new)) ''https://example.com''
     \<noteq> Some example_link"
  using caches_populated_together
    [of "LinkService_new InMemoryLinkRepository_new" example_platform InMemoryLinkRepository_new "[]"
        "snd (shortenUrl example_platform (LinkService_new InMemoryLinkRepository_new)
                ''https://example.com'' 1000)"
        "''https://example.com''" 1000 "''idx''" "''idx''" example_link]
  by (simp add: service_eval)

text \<open>
  Claim C7. For a URL that parses: when the URL cache holds a \<open>Link\<close> for it,
  \<open>shortenUrl\<close> returns that \<open>Link\<close>, generates no identifier, and leaves the repository
  (its contents and the list of calls made on it) and the short-code cache as they
  were. Two consecutive calls with the same URL return the same \<open>Link\<close>, and the second
  generates nothing and does not reach the repository.
\<close>

theorem shortenUrl_returns_cached_link:
  assumes "url_parses pf u" and "s = run_service pf (LinkService_new r) cs"
  shows "(cached_at (urlCache s) u = Some l \<longrightarrow>
            fst (shortenUrl pf s u now) = Inr l
          \<and> idsGenerated (snd (shortenUrl pf s u now)) = idsGenerated s
          \<and> linkRepository (snd (shortenUrl pf s u now)) = linkRepository s
          \<and> shortCodeCache (snd (shortenUrl pf s u now)) = shortCodeCache s)
       \<and> (\<exists>l1. fst (shortenUrl pf s u now) = Inr l1
             \<and> fst (shortenUrl pf (snd (shortenUrl pf s u now)) u now') = Inr l1
             \<and> idsGenerated (snd (shortenUrl pf (snd (shortenUrl pf s u now)) u now'))
                 = idsGenerated (snd (shortenUrl pf s u now))
             \<and> linkRepository (snd (shortenUrl pf (snd (shortenUrl pf s u now)) u now'))
                 = linkRepository (snd (shortenUrl pf s u now)))"
proof -
  have hit: "fst (shortenUrl pf t u n) = Inr c
          \<and> idsGenerated (snd (shortenUrl pf t u n)) = idsGenerated t
          \<and> linkRepository (snd (shortenUrl pf t u n)) = linkRepository t
          \<and> shortCodeCache (snd (shortenUrl pf t u n)) = shortCodeCache t"
    if "cached_at (urlCache t) u = Some c" for t c n
    using assms(1) that by (simp add: shortenUrl_hit)
  have inv: "service_inv s"
    unfolding assms(2) by (rule service_inv_run)
  have twice: "\<exists>l1. fst (shortenUrl pf s u now) = Inr l1
             \<and> cached_at (urlCache (snd (shortenUrl pf s u now))) u = Some l1"
  proof (cases "cached_at (urlCache s) u")
    case (Some c)
    have "cached_at (snd (LruCache_get (urlCache s) u)) u = cached_at (urlCache s) u"
      by (rule cached_at_get)
    with Some assms(1) show ?thesis by (simp add: shortenUrl_hit)
  next
    case None
    from inv have "distinct (cache_keys (urlCache s))" and "1 \<le> maxSize (urlCache s)"
      by (simp_all add: service_inv_def)
    then have "cached_at (LruCache_set (urlCache s) u (Some (new_link pf s u now))) u
                 = Some (new_link pf s u now)"
      by (rule cached_at_set_same)
    with None assms(1) show ?thesis by (simp add: shortenUrl_miss)
  qed
  then obtain l1 where first: "fst (shortenUrl pf s u now) = Inr l1"
    and held: "cached_at (urlCache (snd (shortenUrl pf s u now))) u = Some l1"
    by blast
  from hit [OF held, of now'] first have "\<exists>l1. fst (shortenUrl pf s u now) = Inr l1
             \<and> fst (shortenUrl pf (snd (shortenUrl pf s u now)) u now') = Inr l1
             \<and> idsGenerated (snd (shortenUrl pf (snd (shortenUrl pf s u now)) u now'))
                 = idsGenerated (snd (shortenUrl pf s u now))
             \<and> linkRepository (snd (shortenUrl pf (snd (shortenUrl pf s u now)) u now'))
                 = linkRepository (snd (shortenUrl pf s u now))"
    by blast
  with hit [of s l now] show ?thesis by blast
qed


theorem shortenUrl_returns_cached_link_witness:
  "url_parses example_platform ''https://example.com''
   \<and> cached_at (urlCache (run_service example_platform (LinkService_new InMemoryLinkRepository_new)
         [ShortenUrl ''https://example.com'' 1000])) ''https://example.com'' = Some example_link
   \<and> fst (shortenUrl example_platform
         (run_service example_platform (LinkService_new InMemoryLinkRepository_new)
            [ShortenUrl ''https://example.com'' 1000]) ''https://example.com'' 2000) = Inr example_link
   \<and> calls (linkRepository (snd (shortenUrl example_platform
         (run_service example_platform (LinkService_new InMemoryLinkRepository_new)
            [ShortenUrl ''https://example.com'' 1000]) ''https://example.com'' 2000)))
       = [Save example_link]
   \<and> idsGenerated (snd (shortenUrl example_platform
         (run_service example_platform (LinkService_new InMemoryLinkRepository_new)
            [ShortenUrl ''https://example.com'' 1000]) ''https://example.com'' 2000)) = 2"
  using shortenUrl_returns_cached_link
    [of example_platform "''https://example.com''"
        "run_service example_platform (LinkService_new InMemoryLinkRepository_new)
           [ShortenUrl ''https://example.com'' 1000]"
        InMemoryLinkRepository_new "[ShortenUrl ''https://example.com'' 1000]" example_link 2000 3000]
  by (simp add: service_eval)

text \<open>
  Claim C8. For a string the \<open>URL\<close> constructor rejects, \<open>shortenUrl\<close> throws the
  \<open>AppError\<close> with status 400 and code \<open>INVALID_URL\<close> and returns the state it was given:
  both caches, the repository, the list of calls made on it and the count of generated
  identifiers are unchanged. The error handler turns the error into status 400.
\<close>

theorem shortenUrl_rejects_invalid_url:
  assumes "\<not> url_parses pf u"
  shows "shortenUrl pf s u now = (Inl (AppError ''Invalid URL provided'' 400 ''INVALID_URL''), s)
       \<and> statusCode (errorHandler (AppError ''Invalid URL provided'' 400 ''INVALID_URL'') res) = 400
       \<and> body (errorHandler (AppError ''Invalid URL provided'' 400 ''INVALID_URL'') res)
           = Some (ErrorEnvelope False ''Invalid URL provided'' ''INVALID_URL'')"
  using assms by (simp add: shortenUrl_invalid status_def json_def)

theorem shortenUrl_rejects_invalid_url_witness:
  "\<not> url_parses example_platform ''not a url''
   \<and> shortenUrl example_platform (LinkService_new example_repository) ''not a url'' 1000
       = (Inl (AppError ''Invalid URL provided'' 400 ''INVALID_URL''), LinkService_new example_repository)"
  using shortenUrl_rejects_invalid_url
    [of example_platform "''not a url''" "LinkService_new example_repository" 1000 new_Response]
  by (simp add: example_platform_def)

text \<open>
  Claim C9. \<open>resolveShortCode\<close> throws exactly when the short-code cache misses and
  \<open>findByShortCode\<close> finds nothing; the error is the \<open>AppError\<close> with status 404 and
  code \<open>LINK_NOT_FOUND\<close>, which the error handler answers with status 404. On a cache
  miss for which the repository has a \<open>Link\<close>, that \<open>Link\<close> is returned and both caches
  hold it afterwards.
\<close>

theorem resolveShortCode_NotFound_iff:
  assumes "s = run_service pf (LinkService_new r) cs"
  shows "((\<exists>e. fst (resolveShortCode s sc) = Inl e) \<longleftrightarrow>
            cached_at (shortCodeCache s) sc = None
          \<and> fst (findByShortCode (linkRepository s) sc) = None)
       \<and> (\<forall>e. fst (resolveShortCode s sc) = Inl e \<longrightarrow>
              e = AppError ''Short link not found'' 404 ''LINK_NOT_FOUND''
            \<and> statusCode (errorHandler e res) = 404
            \<and> body (errorHandler e res)
                = Some (ErrorEnvelope False ''Short link not found'' ''LINK_NOT_FOUND''))
       \<and> (cached_at (shortCodeCache s) sc = None
          \<and> fst (findByShortCode (linkRepository s) sc) = Some l \<longrightarrow>
              fst (resolveShortCode s sc) = Inr l
            \<and> cached_at (shortCodeCache (snd (resolveShortCode s sc))) sc = Some l
            \<and> cached_at (urlCache (snd (resolveShortCode s sc))) (originalUrl l) = Some l)"
proof -
  have inv: "service_inv s"
    unfolding assms by (rule service_inv_run)
  then have d1: "distinct (cache_keys (shortCodeCache s))" and d2: "distinct (cache_keys (urlCache s))"
    and m1: "1 \<le> maxSize (shortCodeCache s)" and m2: "1 \<le> maxSize (urlCache s)"
    by (simp_all add: service_inv_def)
  have cases: "fst (resolveShortCode s sc) =
      (case cached_at (shortCodeCache s) sc of
         Some c \<Rightarrow> Inr c
       | None \<Rightarrow> (case fst (findByShortCode (linkRepository s) sc) of
                    None \<Rightarrow> Inl (AppError ''Short link not found'' 404 ''LINK_NOT_FOUND'')
                  | Some f \<Rightarrow> Inr f))"
    by (simp add: resolveShortCode_hit resolveShortCode_absent resolveShortCode_found
        split: option.splits)
  have a: "(\<exists>e. fst (resolveShortCode s sc) = Inl e) \<longleftrightarrow>
            cached_at (shortCodeCache s) sc = None
          \<and> fst (findByShortCode (linkRepository s) sc) = None"
    unfolding cases by (simp split: option.splits)
  have b: "\<forall>e. fst (resolveShortCode s sc) = Inl e \<longrightarrow>
              e = AppError ''Short link not found'' 404 ''LINK_NOT_FOUND''
            \<and> statusCode (errorHandler e res) = 404
            \<and> body (errorHandler e res)
                = Some (ErrorEnvelope False ''Short link not found'' ''LINK_NOT_FOUND'')"
    unfolding cases by (auto simp: status_def json_def split: option.splits)
  have c: "cached_at (shortCodeCache s) sc = None
          \<and> fst (findByShortCode (linkRepository s) sc) = Some l \<longrightarrow>
              fst (resolveShortCode s sc) = Inr l
            \<and> cached_at (shortCodeCache (snd (resolveShortCode s sc))) sc = Some l
            \<and> cached_at (urlCache (snd (resolveShortCode s sc))) (originalUrl l) = Some l"
    using cached_at_set_same [OF d1 m1, of sc l] cached_at_set_same [OF d2 m2, of "originalUrl l" l]
    by (simp add: resolveShortCode_found)
  from a b c show ?thesis by (intro conjI)
qed

theorem resolveShortCode_NotFound_iff_witness:
  "cached_at (shortCodeCache (LinkService_new example_repository)) ''nope'' = None
   \<and> fst (findByShortCode (linkRepository (LinkService_new example_repository)) ''nope'') = None
   \<and> fst (resolveShortCode (LinkService_new example_repository) ''nope'')
       = Inl (AppError ''Short link not found'' 404 ''LINK_NOT_FOUND'')
   \<and> statusCode (errorHandler (AppError ''Short link not found'' 404 ''LINK_NOT_FOUND'') new_Response)
       = 404
   \<and> cached_at (shortCodeCache (LinkService_new example_repository)) ''idx'' = None
   \<and> fst (findByShortCode (linkRepository (LinkService_new example_repository)) ''idx'')
       = Some example_link
   \<and> fst (resolveShortCode (LinkService_new example_repository) ''idx'') = Inr example_link
   \<and> cached_at (urlCache (snd (resolveShortCode (LinkService_new example_repository) ''idx'')))
         ''https://example.com'' = Some example_link"
  using resolveShortCode_NotFound_iff
    [of "LinkService_new example_repository" example_platform example_repository "[]"
        "''nope''" new_Response example_link]
    resolveShortCode_NotFound_iff
    [of "LinkService_new example_repository" example_platform example_repository "[]"
        "''idx''" new_Response example_link]
  by (simp add: service_eval new_Response_def)

end
